theory Spec2Isabelle
  imports Complex_Main "HOL-Library.Word" "HOL-Library.AList" "HOL-Library.Multiset"
begin

section \<open>Errors\<close>

text \<open>
  The exceptions the Python code raises, as values. \<open>ValueError\<close> and
  \<open>NotImplementedError\<close> carry the message the source builds; \<open>KeyError\<close> is a failed
  dictionary or adjacency lookup, \<open>IndexError\<close> a list index out of range, \<open>TypeError\<close>
  an index into \<open>None\<close>, \<open>OverflowError\<close> a number too large for a float. An exception of the
  external shortest-path search is \<open>SearchError\<close>.
\<close>

datatype error =
    ValueError string
  | KeyError
  | IndexError
  | NotImplementedError string
  | TypeError
  | OverflowError
  | SearchError

section \<open>model/euclidean\_node.py\<close>

text \<open>
  \<open>EuclideanNode\<close>: four fields, never modified after initialisation. The Python field
  \<open>type\<close> is \<open>node_type\<close> here (the constructor's argument name) and \<open>floor\<close> is
  \<open>floor_n\<close>. Coordinates are a tuple of numbers; Python's floats are idealised as reals.
\<close>

record node =
  node_type :: string
  name :: string
  floor_n :: int
  coord :: "real list"

text \<open>
  \<open>__hash__\<close> returns \<open>hash((self.type, self.name, self.floor, self.coord))\<close> and
  \<open>__eq__\<close> compares the two hashes (both operands are nodes here, so the test
  \<open>type(self) == type(other)\<close> holds). The builtin \<open>hash\<close> is the interpreter's: the hash
  of a tuple is computed from the hashes of its items, a 64-bit machine integer each. The
  hash of a tuple's item hashes (\<open>tuple_hash\<close>), of a string (\<open>str_hash\<close>, seeded per
  process) and of the coordinate tuple (\<open>coord_hash\<close>) are parameters; the hash of an
  integer is CPython's: the value modulo \<open>2^61 - 1\<close> with the sign kept, and \<open>-2\<close> in
  place of \<open>-1\<close>, which is reserved.
\<close>

definition int_hash :: "int \<Rightarrow> 64 word" where
  "int_hash n =
     (let r = sgn n * (\<bar>n\<bar> mod (2 ^ 61 - 1)) in word_of_int (if r = - 1 then - 2 else r))"

definition node_hash ::
  "(64 word list \<Rightarrow> 64 word) \<Rightarrow> (string \<Rightarrow> 64 word) \<Rightarrow> (real list \<Rightarrow> 64 word) \<Rightarrow> node \<Rightarrow> 64 word" where
  "node_hash tuple_hash str_hash coord_hash n =
     tuple_hash [str_hash (node_type n), str_hash (name n), int_hash (floor_n n), coord_hash (coord n)]"

definition node_eq ::
  "(64 word list \<Rightarrow> 64 word) \<Rightarrow> (string \<Rightarrow> 64 word) \<Rightarrow> (real list \<Rightarrow> 64 word) \<Rightarrow> node \<Rightarrow> node \<Rightarrow> bool" where
  "node_eq tuple_hash str_hash coord_hash a b \<longleftrightarrow>
     node_hash tuple_hash str_hash coord_hash a = node_hash tuple_hash str_hash coord_hash b"

section \<open>model/functions.py\<close>

text \<open>
  \<open>euclidean_dist\<close>: raises \<open>ValueError\<close> when the lengths differ, otherwise
  \<open>sum((d1 - d2) ** 2 for d1, d2 in zip(p1, p2)) ** 0.5\<close>.
\<close>

definition dims_msg :: string where
  "dims_msg = ''Points must have the same number of dimensions.''"

definition euclidean_dist :: "real list \<Rightarrow> real list \<Rightarrow> error + real" where
  "euclidean_dist p1 p2 =
     (if length p1 \<noteq> length p2 then Inl (ValueError dims_msg)
      else Inr (sqrt (sum_list (map (\<lambda>(d1, d2). (d1 - d2)\<^sup>2) (zip p1 p2)))))"

definition euclidean_dist_nodes :: "node \<Rightarrow> node \<Rightarrow> error + real" where
  "euclidean_dist_nodes n1 n2 = euclidean_dist (coord n1) (coord n2)"






text \<open>The sum under the root, named for the proofs about \<open>euclidean_dist\<close>.\<close>

definition sq_sum :: "real list \<Rightarrow> real list \<Rightarrow> real" where
  "sq_sum p q = sum_list (map (\<lambda>(d1, d2). (d1 - d2)\<^sup>2) (zip p q))"

text \<open>
  Helpers for comprehensions and key functions that can raise: the first exception, in
  iteration order, is the result.
\<close>

fun filter_err :: "('a \<Rightarrow> error + bool) \<Rightarrow> 'a list \<Rightarrow> error + 'a list" where
  "filter_err f [] = Inr []"
| "filter_err f (x # xs) =
     (case f x of
        Inl e \<Rightarrow> Inl e
      | Inr b \<Rightarrow>
          (case filter_err f xs of
             Inl e \<Rightarrow> Inl e
           | Inr ys \<Rightarrow> Inr (if b then x # ys else ys)))"

fun map_err :: "('a \<Rightarrow> error + 'b) \<Rightarrow> 'a list \<Rightarrow> error + 'b list" where
  "map_err f [] = Inr []"
| "map_err f (x # xs) =
     (case f x of
        Inl e \<Rightarrow> Inl e
      | Inr y \<Rightarrow>
          (case map_err f xs of
             Inl e \<Rightarrow> Inl e
           | Inr ys \<Rightarrow> Inr (y # ys)))"

text \<open>Decimal rendering of a length, for the message of \<open>naive_knn\<close>.\<close>

definition digit_char :: "nat \<Rightarrow> char" where
  "digit_char d = ''0123456789'' ! d"

fun str_nat :: "nat \<Rightarrow> string" where
  "str_nat n = (if n < 10 then [digit_char n] else str_nat (n div 10) @ [digit_char (n mod 10)])"

definition knn_msg :: "nat \<Rightarrow> string" where
  "knn_msg n = ''Data only contains '' @ str_nat n @ '' total neighbors after filtering''"

text \<open>
  \<open>naive_knn(node, data, k, weight_func, ignore_self, same_floor)\<close>. \<open>sorted\<close> computes
  every key first, then sorts stably; \<open>sort_key\<close> is a stable insertion sort.
\<close>

definition naive_knn ::
  "node \<Rightarrow> node list \<Rightarrow> nat \<Rightarrow> (real list \<Rightarrow> real list \<Rightarrow> error + real) \<Rightarrow> bool \<Rightarrow> bool
    \<Rightarrow> error + node list" where
  "naive_knn nd data k weight_func ignore_self same_floor =
     (let data1 = (if same_floor then filter (\<lambda>item. floor_n item = floor_n nd) data else data) in
      case (if ignore_self
            then filter_err (\<lambda>item. map_sum id (\<lambda>d. d \<noteq> 0) (weight_func (coord nd) (coord item))) data1
            else Inr data1) of
        Inl e \<Rightarrow> Inl e
      | Inr data2 \<Rightarrow>
          if k > length data2 then Inl (ValueError (knn_msg (length data2)))
          else
            (case map_err (\<lambda>neighbor. weight_func (coord neighbor) (coord nd)) data2 of
               Inl e \<Rightarrow> Inl e
             | Inr keys \<Rightarrow> Inr (take k (map fst (sort_key snd (zip data2 keys))))))"

text \<open>
  \<open>project(p, q, node)\<close>. The geometry is shapely's
  \<open>line.interpolate(line.project(point))\<close>, a library outside the repository: it is the
  parameter \<open>nearest_on\<close>, from the two ends of the segment and the point to a point of the
  plane. \<open>clamped_projection\<close> is the function the docstring describes (the orthogonal
  projection, or the closest point of the segment when the projection falls outside it).
\<close>

definition two_dim_msg :: string where
  "two_dim_msg = ''All nodes must be two-dimensional.''"

definition pt :: "node \<Rightarrow> real \<times> real" where
  "pt n = (coord n ! 0, coord n ! 1)"

definition project ::
  "(real \<times> real \<Rightarrow> real \<times> real \<Rightarrow> real \<times> real \<Rightarrow> real \<times> real) \<Rightarrow> node \<Rightarrow> node \<Rightarrow> node \<Rightarrow> error + node" where
  "project nearest_on p q nd =
     (if list_ex (\<lambda>n. length (coord n) \<noteq> 2) [p, q, nd] then Inl (ValueError two_dim_msg)
      else Inr \<lparr>node_type = ''Hallway'', name = ''T-'' @ name nd, floor_n = floor_n nd,
                coord = (case nearest_on (pt p) (pt q) (pt nd) of (x, y) \<Rightarrow> [x, y])\<rparr>)"


section \<open>The networkx graph under both graph classes\<close>

text \<open>
  \<open>nx.Graph\<close> keeps a dictionary from each node to the dictionary of its neighbours, whose
  values are the edges' attribute dictionaries. Dictionaries keep insertion order, so
  they are association lists (\<open>map_of\<close> to read, \<open>AList.update\<close> to write: an existing
  key keeps its place, a new one goes last). The only edge attribute this program sets or
  reads is \<open>weight\<close>: an attribute dictionary is \<open>Some w\<close>, or \<open>None\<close> without the entry.
\<close>

type_synonym adjacency = "(node \<times> (node \<times> real option) list) list"

record nx_graph =
  adj :: adjacency

definition add_node :: "adjacency \<Rightarrow> node \<Rightarrow> adjacency" where
  "add_node a u = (case map_of a u of None \<Rightarrow> a @ [(u, [])] | Some _ \<Rightarrow> a)"

definition nbrs :: "adjacency \<Rightarrow> node \<Rightarrow> (node \<times> real option) list" where
  "nbrs a u = (case map_of a u of None \<Rightarrow> [] | Some m \<Rightarrow> m)"

text \<open>\<open>add_edge(u, v, weight=w)\<close>: both nodes are added when new, both directions are set.\<close>

definition add_edge :: "adjacency \<Rightarrow> node \<Rightarrow> node \<Rightarrow> real \<Rightarrow> adjacency" where
  "add_edge a u v w =
     (let a1 = add_node a u;
          a2 = add_node a1 v;
          a3 = AList.update u (AList.update v (Some w) (nbrs a2 u)) a2
      in AList.update v (AList.update u (Some w) (nbrs a3 v)) a3)"

text \<open>\<open>graph[u][v].get('weight', 1)\<close>: either lookup can raise \<open>KeyError\<close>.\<close>

definition edge_weight :: "adjacency \<Rightarrow> node \<Rightarrow> node \<Rightarrow> error + real" where
  "edge_weight a u v =
     (case map_of a u of
        None \<Rightarrow> Inl KeyError
      | Some m \<Rightarrow>
          (case map_of m v of
             None \<Rightarrow> Inl KeyError
           | Some None \<Rightarrow> Inr 1
           | Some (Some w) \<Rightarrow> Inr w))"

text \<open>\<open>_path_len\<close>: the sum over \<open>zip(path[:-1], path[1:])\<close>.\<close>

fun path_len :: "adjacency \<Rightarrow> node list \<Rightarrow> error + real" where
  "path_len a (u # v # rest) =
     (case edge_weight a u v of
        Inl e \<Rightarrow> Inl e
      | Inr w \<Rightarrow> (case path_len a (v # rest) of Inl e \<Rightarrow> Inl e | Inr s \<Rightarrow> Inr (w + s)))"
| "path_len a _ = Inr 0"

text \<open>\<open>NodeList\<close>: the nodes of a graph in insertion order, and its two filters.\<close>

definition nodes :: "adjacency \<Rightarrow> node list" where
  "nodes a = map fst a"

definition classrooms :: "node list \<Rightarrow> node list" where
  "classrooms ns = filter (\<lambda>n. node_type n = ''Classroom'') ns"

definition hallways :: "node list \<Rightarrow> node list" where
  "hallways ns = filter (\<lambda>n. node_type n = ''Hallway'') ns"

section \<open>model/euclidean\_graph.py\<close>

record euclidean_graph = nx_graph +
  node_dict :: "(string \<times> node) list"

text \<open>
  The body of the loop of \<open>connect_all\<close> for one classroom, on the adjacency (the only
  part of the graph it changes). \<open>a, b = ...\<close> unpacks a list of exactly two nodes.
\<close>

definition connect_one ::
  "(real \<times> real \<Rightarrow> real \<times> real \<Rightarrow> real \<times> real \<Rightarrow> real \<times> real) \<Rightarrow> adjacency \<Rightarrow> node \<Rightarrow> error + adjacency" where
  "connect_one nearest_on g classroom =
     (case naive_knn classroom (hallways (nodes g)) 2 euclidean_dist True True of
        Inl e \<Rightarrow> Inl e
      | Inr [a, b] \<Rightarrow>
          (case project nearest_on a b classroom of
             Inl e \<Rightarrow> Inl e
           | Inr d \<Rightarrow>
               (case euclidean_dist_nodes a d of
                  Inl e \<Rightarrow> Inl e
                | Inr wa \<Rightarrow>
                    (case euclidean_dist_nodes b d of
                       Inl e \<Rightarrow> Inl e
                     | Inr wb \<Rightarrow>
                         (case euclidean_dist_nodes classroom d of
                            Inl e \<Rightarrow> Inl e
                          | Inr wc \<Rightarrow>
                              Inr (add_edge (add_edge (add_edge g a d wa) b d wb) classroom d wc)))))
      | Inr _ \<Rightarrow> Inl (ValueError ''unpack''))"

fun connect_loop ::
  "(real \<times> real \<Rightarrow> real \<times> real \<Rightarrow> real \<times> real \<Rightarrow> real \<times> real) \<Rightarrow> adjacency \<Rightarrow> node list \<Rightarrow> error + adjacency" where
  "connect_loop nearest_on g [] = Inr g"
| "connect_loop nearest_on g (c # cs) =
     (case connect_one nearest_on g c of
        Inl e \<Rightarrow> Inl e
      | Inr g' \<Rightarrow> connect_loop nearest_on g' cs)"

definition connect_all ::
  "(real \<times> real \<Rightarrow> real \<times> real \<Rightarrow> real \<times> real \<Rightarrow> real \<times> real) \<Rightarrow> euclidean_graph \<Rightarrow> error + euclidean_graph" where
  "connect_all nearest_on g =
     (case connect_loop nearest_on (adj g) (classrooms (nodes (adj g))) of
        Inl e \<Rightarrow> Inl e
      | Inr a \<Rightarrow> Inr (g\<lparr>adj := a\<rparr>))"

section \<open>tsp/solve\_tsp.py\<close>

text \<open>
  \<open>ReducedGraph\<close>: a graph with a start node and \<open>edge_dict\<close>, the dictionary from each
  ordered pair of end nodes to the full path of that reduced edge.
\<close>

record reduced_graph = nx_graph +
  start :: node
  edge_dict :: "((node \<times> node) \<times> node list) list"

definition add_reduced_edge :: "reduced_graph \<Rightarrow> node \<Rightarrow> node \<Rightarrow> node list \<Rightarrow> real \<Rightarrow> reduced_graph" where
  "add_reduced_edge g u v path w =
     g\<lparr>adj := add_edge (adj g) u v w,
       edge_dict := AList.update (v, u) (rev path) (AList.update (u, v) path (edge_dict g))\<rparr>"

text \<open>
  \<open>expand_path\<close>. The loop runs over \<open>zip(reduced_path[:-2], reduced_path[1:-1])\<close> and
  extends \<open>full_path\<close> with the stored path without its last node; then the last edge is
  read with \<open>reduced_path[-2]\<close> and \<open>reduced_path[-1]\<close>, which raise \<open>IndexError\<close> on a list
  of fewer than two nodes.
\<close>

fun expand_loop ::
  "((node \<times> node) \<times> node list) list \<Rightarrow> (node \<times> node) list \<Rightarrow> node list \<Rightarrow> error + node list" where
  "expand_loop ed [] full_path = Inr full_path"
| "expand_loop ed ((u, v) # ps) full_path =
     (case map_of ed (u, v) of
        None \<Rightarrow> Inl KeyError
      | Some p \<Rightarrow> expand_loop ed ps (full_path @ butlast p))"

definition expand_path :: "reduced_graph \<Rightarrow> node list \<Rightarrow> error + node list" where
  "expand_path g reduced_path =
     (let n = length reduced_path in
      case expand_loop (edge_dict g)
             (zip (take (n - 2) reduced_path) (drop 1 (take (n - 1) reduced_path))) [] of
        Inl e \<Rightarrow> Inl e
      | Inr full_path \<Rightarrow>
          if n < 2 then Inl IndexError
          else
            (case map_of (edge_dict g) (reduced_path ! (n - 2), reduced_path ! (n - 1)) of
               None \<Rightarrow> Inl KeyError
             | Some p \<Rightarrow> Inr (full_path @ p)))"

text \<open>
  \<open>neighbors\<close> returns the set of the keys of \<open>self[n]\<close>, here the list of the (distinct)
  keys; \<open>self[n]\<close> raises \<open>KeyError\<close> for a node that is not in the graph.
\<close>

definition neighbors :: "adjacency \<Rightarrow> node \<Rightarrow> error + node list" where
  "neighbors a n = (case map_of a n of None \<Rightarrow> Inl KeyError | Some m \<Rightarrow> Inr (map fst m))"

text \<open>\<open>itertools.combinations(nodes, 2)\<close> and \<open>itertools.permutations(nodes)\<close>, in their order.\<close>

fun combinations2 :: "'a list \<Rightarrow> ('a \<times> 'a) list" where
  "combinations2 [] = []"
| "combinations2 (x # xs) = map (Pair x) xs @ combinations2 xs"

fun perms_of_length :: "nat \<Rightarrow> 'a list \<Rightarrow> 'a list list" where
  "perms_of_length 0 xs = [[]]"
| "perms_of_length (Suc n) xs =
     concat (map (\<lambda>i. map ((#) (xs ! i)) (perms_of_length n (take i xs @ drop (Suc i) xs)))
                 [0..<length xs])"

definition permutations :: "'a list \<Rightarrow> 'a list list" where
  "permutations xs = perms_of_length (length xs) xs"

text \<open>
  \<open>_reduce_graph\<close>. The shortest-path search \<open>nx.astar_path\<close> is a library outside the
  repository: it is the parameter \<open>astar\<close>, called with the graph, the two end nodes and
  the heuristic, and returns a path or raises.
\<close>

type_synonym search =
  "euclidean_graph \<Rightarrow> node \<Rightarrow> node \<Rightarrow> (node \<Rightarrow> node \<Rightarrow> error + real) \<Rightarrow> error + node list"

fun reduce_loop ::
  "search \<Rightarrow> euclidean_graph \<Rightarrow> (string \<times> string) list \<Rightarrow> reduced_graph \<Rightarrow> error + reduced_graph" where
  "reduce_loop astar graph [] reduced = Inr reduced"
| "reduce_loop astar graph ((u, v) # ps) reduced =
     (case map_of (node_dict graph) u of
        None \<Rightarrow> Inl KeyError
      | Some source \<Rightarrow>
          (case map_of (node_dict graph) v of
             None \<Rightarrow> Inl KeyError
           | Some target \<Rightarrow>
               (case astar graph source target euclidean_dist_nodes of
                  Inl e \<Rightarrow> Inl e
                | Inr path \<Rightarrow>
                    (case path_len (adj graph) path of
                       Inl e \<Rightarrow> Inl e
                     | Inr path_dist \<Rightarrow>
                         reduce_loop astar graph ps
                           (add_reduced_edge reduced source target path path_dist)))))"

definition reduce_graph :: "search \<Rightarrow> euclidean_graph \<Rightarrow> string list \<Rightarrow> string \<Rightarrow> error + reduced_graph" where
  "reduce_graph astar graph ns s =
     (case map_of (node_dict graph) s of
        None \<Rightarrow> Inl KeyError
      | Some st \<Rightarrow>
          reduce_loop astar graph (combinations2 ns) \<lparr>adj = [], start = st, edge_dict = []\<rparr>)"

text \<open>
  \<open>_brute_force\<close>. \<open>shortest_len\<close> starts as \<open>float('inf')\<close>, which is \<open>None\<close> here, and
  \<open>shortest_path\<close> as \<open>None\<close>; a permutation replaces them when its length is strictly
  smaller. The test \<open>node is not graph.start\<close> is on values: every node of a reduced graph
  is a key of its adjacency dictionary, one object per value.
\<close>

definition less_than_len :: "real \<Rightarrow> real option \<Rightarrow> bool" where
  "less_than_len l shortest_len = (case shortest_len of None \<Rightarrow> True | Some s \<Rightarrow> l < s)"

fun brute_loop ::
  "reduced_graph \<Rightarrow> node list list \<Rightarrow> node list option \<Rightarrow> real option
    \<Rightarrow> error + (node list option \<times> real option)" where
  "brute_loop g [] shortest_path shortest_len = Inr (shortest_path, shortest_len)"
| "brute_loop g (p # ps) shortest_path shortest_len =
     (case path_len (adj g) (start g # p) of
        Inl e \<Rightarrow> Inl e
      | Inr l \<Rightarrow>
          if less_than_len l shortest_len then brute_loop g ps (Some (start g # p)) (Some l)
          else brute_loop g ps shortest_path shortest_len)"

definition brute_force :: "reduced_graph \<Rightarrow> error + (node list option \<times> real option)" where
  "brute_force g =
     brute_loop g (permutations (filter (\<lambda>n. n \<noteq> start g) (nodes (adj g)))) None None"

text \<open>
  \<open>min(iterable, key=...)\<close>: the key of every item is computed in iteration order, and an
  item replaces the best one when its key is strictly smaller, so the first minimum wins.
  \<open>min\<close> of an empty iterable raises \<open>ValueError\<close>.
\<close>

fun min_loop :: "('a \<Rightarrow> error + real) \<Rightarrow> 'a \<Rightarrow> real \<Rightarrow> 'a list \<Rightarrow> error + 'a" where
  "min_loop key best bk [] = Inr best"
| "min_loop key best bk (y # ys) =
     (case key y of
        Inl e \<Rightarrow> Inl e
      | Inr k \<Rightarrow> if k < bk then min_loop key y k ys else min_loop key best bk ys)"

definition py_min :: "('a \<Rightarrow> error + real) \<Rightarrow> 'a list \<Rightarrow> error + 'a" where
  "py_min key xs =
     (case xs of
        [] \<Rightarrow> Inl (ValueError ''min() arg is an empty sequence'')
      | x # rest \<Rightarrow> (case key x of Inl e \<Rightarrow> Inl e | Inr k \<Rightarrow> min_loop key x k rest))"

text \<open>
  \<open>_greedy\<close>. The candidates are \<open>graph.neighbors(cur).difference(visited)\<close>, a set: the
  order in which \<open>min\<close> iterates over it is the interpreter's. It is the parameter
  \<open>slot\<close>, which gives every candidate its place in the iteration (the candidates are
  sorted by it), so that every iteration order is covered. The loop ends because every
  turn visits a new neighbour.
\<close>

definition unvisited :: "adjacency \<Rightarrow> node set \<Rightarrow> nat" where
  "unvisited a visited = card (set (concat (map (\<lambda>e. map fst (snd e)) a)) - visited)"

function greedy_loop ::
  "(node list \<Rightarrow> node \<Rightarrow> nat) \<Rightarrow> adjacency \<Rightarrow> node list \<Rightarrow> node set \<Rightarrow> node \<Rightarrow> error + node list" where
  "greedy_loop slot a greedy_path visited cur =
     (case neighbors a cur of
        Inl e \<Rightarrow> Inl e
      | Inr ns \<Rightarrow>
          (case filter (\<lambda>n. n \<notin> visited) ns of
             [] \<Rightarrow> Inr greedy_path
           | c # cs \<Rightarrow>
               (case py_min (euclidean_dist_nodes cur) (sort_key (slot (c # cs)) (c # cs)) of
                  Inl e \<Rightarrow> Inl e
                | Inr nearest \<Rightarrow>
                    greedy_loop slot a (greedy_path @ [nearest]) (insert nearest visited) nearest)))"
  by pat_completeness auto

lemma min_loop_in: "min_loop key best bk ys = Inr r \<Longrightarrow> r = best \<or> r \<in> set ys"
  by (induction ys arbitrary: best bk) (auto split: sum.splits if_splits)

lemma py_min_in: "py_min key xs = Inr r \<Longrightarrow> r \<in> set xs"
  by (auto simp: py_min_def split: list.splits sum.splits dest: min_loop_in)

lemma neighbors_universe:
  assumes "neighbors a cur = Inr ns"
  shows "set ns \<subseteq> set (concat (map (\<lambda>e. map fst (snd e)) a))"
proof -
  from assms obtain m where m: "map_of a cur = Some m" and ns: "ns = map fst m"
    by (auto simp: neighbors_def split: option.splits)
  from m have "(cur, m) \<in> set a"
    by (rule map_of_SomeD)
  then show ?thesis
    using ns by force
qed

lemma unvisited_less:
  assumes "neighbors a cur = Inr ns" and "filter (\<lambda>n. n \<notin> visited) ns = c # cs"
    and "py_min key (sort_key f (c # cs)) = Inr nearest"
  shows "unvisited a (insert nearest visited) < unvisited a visited"
proof -
  define U where "U = set (concat (map (\<lambda>e. map fst (snd e)) a))"
  have fin: "finite (U - visited)"
    by (simp add: U_def)
  have "nearest \<in> set (sort_key f (c # cs))"
    using assms(3) by (rule py_min_in)
  then have "nearest \<in> set (c # cs)"
    by (simp only: set_sort)
  then have "nearest \<in> set (filter (\<lambda>n. n \<notin> visited) ns)"
    using assms(2) by simp
  then have "nearest \<in> set ns" and nv: "nearest \<notin> visited"
    by simp_all
  then have "nearest \<in> U"
    using neighbors_universe [OF assms(1)] unfolding U_def by (rule_tac subsetD)
  with nv have n: "nearest \<in> U - visited"
    by simp
  have "U - insert nearest visited = (U - visited) - {nearest}"
    by auto
  then have "card (U - insert nearest visited) < card (U - visited)"
    using card_Diff1_less [OF fin n] by simp
  then show ?thesis
    unfolding unvisited_def U_def .
qed

termination greedy_loop
  by (relation "measure (\<lambda>(slot, a, greedy_path, visited, cur). unvisited a visited)")
     (simp_all add: unvisited_less)

declare greedy_loop.simps [simp del]

definition greedy :: "(node list \<Rightarrow> node \<Rightarrow> nat) \<Rightarrow> reduced_graph \<Rightarrow> error + (node list \<times> real)" where
  "greedy slot g =
     (case greedy_loop slot (adj g) [start g] {start g} (start g) of
        Inl e \<Rightarrow> Inl e
      | Inr greedy_path \<Rightarrow>
          (case path_len (adj g) greedy_path of
             Inl e \<Rightarrow> Inl e
           | Inr l \<Rightarrow> Inr (greedy_path, l)))"

text \<open>
  \<open>tsp_solver\<close>. \<open>algorithm.lower()\<close> maps the letters A to Z to a to z. The reduction
  runs before the algorithm is looked at. The length returned is the solver's: a real
  number, or \<open>None\<close> for the \<open>float('inf')\<close> the brute-force loop starts with.
\<close>

definition lower_char :: "char \<Rightarrow> char" where
  "lower_char c =
     (case map_of (zip ''ABCDEFGHIJKLMNOPQRSTUVWXYZ'' ''abcdefghijklmnopqrstuvwxyz'') c of
        None \<Rightarrow> c
      | Some l \<Rightarrow> l)"

definition lower :: "string \<Rightarrow> string" where
  "lower s = map lower_char s"

definition implemented :: "string list" where
  "implemented = [''greedy'', ''brute force'']"

definition bullet_points :: string where
  "bullet_points = concat (map (\<lambda>algo. [CHR 0x0A, CHR 0x09] @ ''- '' @ algo) implemented)"

definition not_implemented_msg :: "string \<Rightarrow> string" where
  "not_implemented_msg algorithm =
     [CHR 0x22] @ algorithm @ [CHR 0x22] @
     '' is not recognized as an implemented algorithm. Implemented algorithms: '' @ bullet_points"

definition tsp_solver ::
  "(node list \<Rightarrow> node \<Rightarrow> nat) \<Rightarrow> search \<Rightarrow> euclidean_graph \<Rightarrow> string list \<Rightarrow> string \<Rightarrow> string
    \<Rightarrow> error + (node list \<times> real option)" where
  "tsp_solver slot astar graph ns s algorithm =
     (case reduce_graph astar graph ns s of
        Inl e \<Rightarrow> Inl e
      | Inr reduced \<Rightarrow>
          (case (if lower algorithm = ''greedy''
                 then map_sum id (\<lambda>(p, l). (Some p, Some l)) (greedy slot reduced)
                 else if lower algorithm = ''brute force'' then brute_force reduced
                 else Inl (NotImplementedError (not_implemented_msg algorithm))) of
             Inl e \<Rightarrow> Inl e
           | Inr (shortest_path, len) \<Rightarrow>
               (case shortest_path of
                  None \<Rightarrow> Inl TypeError
                | Some p \<Rightarrow>
                    (case expand_path reduced p of
                       Inl e \<Rightarrow> Inl e
                     | Inr full_path \<Rightarrow> Inr (full_path, len)))))"

section \<open>Path expansion, as the specification words it\<close>

text \<open>
  The stored path of a reduced edge (\<open>[]\<close> when there is none) and the stored paths of the
  consecutive edges of a route. \<open>all_stored\<close>: every consecutive pair of the route has a
  stored path. \<open>stored_ok\<close>: moreover each is a path between its two end nodes, as the
  paths that \<open>add_reduced_edge\<close> receives from the reduction are.
\<close>

definition seg :: "((node \<times> node) \<times> node list) list \<Rightarrow> node \<times> node \<Rightarrow> node list" where
  "seg ed e = (case map_of ed e of None \<Rightarrow> [] | Some p \<Rightarrow> p)"

definition segments :: "((node \<times> node) \<times> node list) list \<Rightarrow> node list \<Rightarrow> node list list" where
  "segments ed rp = map (seg ed) (zip rp (tl rp))"

definition all_stored :: "((node \<times> node) \<times> node list) list \<Rightarrow> node list \<Rightarrow> bool" where
  "all_stored ed rp = list_all (\<lambda>e. map_of ed e \<noteq> None) (zip rp (tl rp))"

definition joins :: "node list \<Rightarrow> node \<times> node \<Rightarrow> bool" where
  "joins p e \<longleftrightarrow> p \<noteq> [] \<and> hd p = fst e \<and> last p = snd e"

definition stored_ok :: "((node \<times> node) \<times> node list) list \<Rightarrow> node list \<Rightarrow> bool" where
  "stored_ok ed rp = list_all (\<lambda>e. joins (seg ed e) e) (zip rp (tl rp))"

text \<open>
  The specification of the expander: every reduced edge is replaced by its stored path, and
  the junction node that two adjacent segments share is kept once. \<open>stitch\<close> keeps the first
  segment whole and drops the first node of every later one.
\<close>

fun stitch :: "'a list list \<Rightarrow> 'a list" where
  "stitch [] = []"
| "stitch [p] = p"
| "stitch (p # q # ps) = p @ tl (stitch (q # ps))"

text \<open>What the loop of \<open>expand_path\<close> builds: every segment but the last loses its last node.\<close>

definition drop_lasts :: "'a list list \<Rightarrow> 'a list" where
  "drop_lasts S = concat (map butlast (butlast S)) @ last S"

section \<open>Example data\<close>

text \<open>
  Five nodes on a line, on floor 1, and the reduced graph with the two edges S--A (through
  J) and A--B (through K), built with \<open>add_reduced_edge\<close>.
\<close>

definition ex_hallway :: "string \<Rightarrow> real list \<Rightarrow> node" where
  "ex_hallway nm c = \<lparr>node_type = ''Hallway'', name = nm, floor_n = 1, coord = c\<rparr>"

definition ex_classroom :: "string \<Rightarrow> real list \<Rightarrow> node" where
  "ex_classroom nm c = \<lparr>node_type = ''Classroom'', name = nm, floor_n = 1, coord = c\<rparr>"

definition ex_S :: node where
  "ex_S = ex_classroom ''S'' [0, 0]"

definition ex_J :: node where
  "ex_J = ex_hallway ''J'' [1, 0]"

definition ex_A :: node where
  "ex_A = ex_classroom ''A'' [2, 0]"

definition ex_K :: node where
  "ex_K = ex_hallway ''K'' [3, 0]"

definition ex_B :: node where
  "ex_B = ex_classroom ''B'' [4, 0]"

definition ex_reduced :: reduced_graph where
  "ex_reduced =
     add_reduced_edge
       (add_reduced_edge \<lparr>adj = [], start = ex_S, edge_dict = []\<rparr> ex_S ex_A [ex_S, ex_J, ex_A] 2)
       ex_A ex_B [ex_A, ex_K, ex_B] 2"

text \<open>
  The base graph of the example, the line S--J--A--K--B with edges of weight 1, and the
  paths the shortest-path search returns on it (between two nodes of a line there is one
  simple path). \<open>ex_reduced3\<close> is the reduced graph over S, A and B.
\<close>

definition ex_base :: euclidean_graph where
  "ex_base =
     \<lparr>adj = add_edge (add_edge (add_edge (add_edge [] ex_S ex_J 1) ex_J ex_A 1) ex_A ex_K 1) ex_K ex_B 1,
      node_dict = [(''S'', ex_S), (''J'', ex_J), (''A'', ex_A), (''K'', ex_K), (''B'', ex_B)]\<rparr>"

definition ex_search :: search where
  "ex_search g u v h =
     (case map_of [((ex_S, ex_A), [ex_S, ex_J, ex_A]),
                   ((ex_S, ex_B), [ex_S, ex_J, ex_A, ex_K, ex_B]),
                   ((ex_A, ex_B), [ex_A, ex_K, ex_B])] (u, v) of
        None \<Rightarrow> Inl SearchError
      | Some p \<Rightarrow> Inr p)"

definition ex_reduced3 :: reduced_graph where
  "ex_reduced3 =
    \<lparr>adj = [(ex_S, [(ex_A, Some 2), (ex_B, Some 4)]), (ex_A, [(ex_S, Some 2), (ex_B, Some 2)]),
            (ex_B, [(ex_S, Some 4), (ex_A, Some 2)])],
     start = ex_S,
     edge_dict = [((ex_S, ex_A), [ex_S, ex_J, ex_A]), ((ex_A, ex_S), [ex_A, ex_J, ex_S]),
       ((ex_S, ex_B), [ex_S, ex_J, ex_A, ex_K, ex_B]), ((ex_B, ex_S), [ex_B, ex_K, ex_A, ex_J, ex_S]),
       ((ex_A, ex_B), [ex_A, ex_K, ex_B]), ((ex_B, ex_A), [ex_B, ex_K, ex_A])]\<rparr>"

section \<open>Complete graphs\<close>

text \<open>
  A complete graph, as the solvers require it: the keys of the adjacency dictionary and of
  every neighbour dictionary are distinct (they are dictionaries), every neighbour is a node
  of the graph, and every node has every other node as a neighbour. \<open>same_dims\<close>: the
  coordinates of all nodes have one dimension, so that the distance between any two of them
  is defined.
\<close>

definition complete :: "adjacency \<Rightarrow> bool" where
  "complete a \<longleftrightarrow>
     distinct (nodes a) \<and>
     list_all (\<lambda>e. distinct (map fst (snd e)) \<and> set (map fst (snd e)) \<subseteq> set (nodes a) \<and>
                   set (nodes a) - {fst e} \<subseteq> set (map fst (snd e))) a"

definition same_dims :: "adjacency \<Rightarrow> bool" where
  "same_dims a \<longleftrightarrow> list_all (\<lambda>u. list_all (\<lambda>v. length (coord u) = length (coord v)) (nodes a)) (nodes a)"

text \<open>The nodes a route has to visit after the start, as \<open>_brute_force\<close> collects them.\<close>

definition others :: "reduced_graph \<Rightarrow> node list" where
  "others g = filter (\<lambda>n. n \<noteq> start g) (nodes (adj g))"

text \<open>
  What the loop of \<open>_brute_force\<close> has established after the permutations \<open>ps\<close>, from
  \<open>sp\<close> and \<open>sl\<close> to \<open>sp'\<close> and \<open>sl'\<close>: path and length are set together, they are the old
  ones or those of one of the permutations, and the length is at most the old length and
  the length of every permutation.
\<close>

definition brute_post ::
  "reduced_graph \<Rightarrow> node list list \<Rightarrow> node list option \<Rightarrow> real option \<Rightarrow> node list option \<Rightarrow> real option \<Rightarrow> bool" where
  "brute_post g ps sp sl sp' sl' \<longleftrightarrow>
      (sl' = None \<longleftrightarrow> sp' = None) \<and>
      ((sp' = sp \<and> sl' = sl) \<or>
       (\<exists>p \<in> set ps. sp' = Some (start g # p) \<and>
          (\<exists>l. sl' = Some l \<and> path_len (adj g) (start g # p) = Inr l))) \<and>
      (\<forall>p \<in> set ps. \<forall>l. path_len (adj g) (start g # p) = Inr l \<longrightarrow> (\<exists>l'. sl' = Some l' \<and> l' \<le> l)) \<and>
      (\<forall>l. sl = Some l \<longrightarrow> (\<exists>l'. sl' = Some l' \<and> l' \<le> l))"

section \<open>The greedy solver, step by step\<close>

text \<open>
  \<open>candidates\<close>: the neighbours of the current node that are not visited yet (none when
  the node is not in the graph). \<open>no_farther cur n m\<close>: both straight-line distances from
  \<open>cur\<close> are defined and \<open>n\<close> is at most as far as \<open>m\<close>. \<open>nearest_steps\<close>: every node of the
  list is a candidate when it is appended, no candidate is nearer in a straight line, and
  no candidate is left after the last one.
\<close>

definition candidates :: "adjacency \<Rightarrow> node list \<Rightarrow> node \<Rightarrow> node list" where
  "candidates a visited cur =
     (case neighbors a cur of Inl e \<Rightarrow> [] | Inr ns \<Rightarrow> filter (\<lambda>n. n \<notin> set visited) ns)"

definition no_farther :: "node \<Rightarrow> node \<Rightarrow> node \<Rightarrow> bool" where
  "no_farther cur n m =
     (case euclidean_dist_nodes cur n of
        Inl e \<Rightarrow> False
      | Inr dn \<Rightarrow> (case euclidean_dist_nodes cur m of Inl e \<Rightarrow> False | Inr dm \<Rightarrow> dn \<le> dm))"

fun nearest_steps :: "adjacency \<Rightarrow> node list \<Rightarrow> node \<Rightarrow> node list \<Rightarrow> bool" where
  "nearest_steps a visited cur [] \<longleftrightarrow> candidates a visited cur = []"
| "nearest_steps a visited cur (n # rest) \<longleftrightarrow>
     n \<in> set (candidates a visited cur) \<and>
     list_all (no_farther cur n) (candidates a visited cur) \<and>
     nearest_steps a (visited @ [n]) n rest"

text \<open>
  A second reduced graph over S, A and B, for a building where A is reached from S only
  through B: the stored paths are S--B--A (length 6), S--B (length 4) and A--B (length 2),
  while in a straight line A is nearer to S than B is.
\<close>

definition ex_detour :: reduced_graph where
  "ex_detour =
     add_reduced_edge
       (add_reduced_edge
          (add_reduced_edge \<lparr>adj = [], start = ex_S, edge_dict = []\<rparr> ex_S ex_A [ex_S, ex_B, ex_A] 6)
          ex_S ex_B [ex_S, ex_B] 4)
       ex_A ex_B [ex_A, ex_B] 2"

section \<open>Connectivity repair, as the specification words it\<close>




text \<open>
  The repair scenario: two hallway nodes and two classrooms on floor 1, no edges yet, and
  the same graph without the second hallway. The second classroom is the node nearest to
  the first, and is not a connector.
\<close>

definition ex_H1 :: node where
  "ex_H1 = ex_hallway ''H1'' [0, 0]"

definition ex_H2 :: node where
  "ex_H2 = ex_hallway ''H2'' [10, 0]"

definition ex_C1 :: node where
  "ex_C1 = ex_classroom ''C1'' [5, 5]"

definition ex_T :: node where
  "ex_T = ex_hallway ''T-C1'' [5, 0]"




section \<open>Graph reduction, as the specification words it\<close>

text \<open>
  \<open>shortest a s t p\<close>: \<open>p\<close> is a walk of the graph from \<open>s\<close> to \<open>t\<close> (all its edges exist),
  and no walk from \<open>s\<close> to \<open>t\<close> is shorter. \<open>same_edge\<close>: two ordered pairs are the same
  undirected edge. \<open>edges_distinct\<close>: a list of pairs names pairwise different undirected
  edges, none of them a loop. \<open>resolved\<close>: the nodes a pair of names stands for.
\<close>

definition shortest :: "adjacency \<Rightarrow> node \<Rightarrow> node \<Rightarrow> node list \<Rightarrow> bool" where
  "shortest a s t p \<longleftrightarrow>
     p \<noteq> [] \<and> hd p = s \<and> last p = t \<and>
     (\<exists>w. path_len a p = Inr w \<and>
        (\<forall>q l. q \<noteq> [] \<and> hd q = s \<and> last q = t \<and> path_len a q = Inr l \<longrightarrow> w \<le> l))"

definition same_edge :: "'a \<times> 'a \<Rightarrow> 'a \<times> 'a \<Rightarrow> bool" where
  "same_edge e f \<longleftrightarrow> e = f \<or> e = (snd f, fst f)"

fun edges_distinct :: "('a \<times> 'a) list \<Rightarrow> bool" where
  "edges_distinct [] \<longleftrightarrow> True"
| "edges_distinct (e # es) \<longleftrightarrow>
     fst e \<noteq> snd e \<and> list_all (\<lambda>f. \<not> same_edge e f) es \<and> edges_distinct es"

definition resolved :: "(string \<times> node) list \<Rightarrow> string \<times> string \<Rightarrow> node option \<times> node option" where
  "resolved nd e = (map_of nd (fst e), map_of nd (snd e))"

text \<open>
  \<open>pair_ok\<close>: both names of a pair are names of the graph, and the search returns a
  shortest path between their nodes. It is what a connected base graph and a correct
  search give for every pair.
\<close>

definition pair_ok :: "search \<Rightarrow> euclidean_graph \<Rightarrow> string \<times> string \<Rightarrow> bool" where
  "pair_ok astar g e \<longleftrightarrow>
     (\<exists>s t p. map_of (node_dict g) (fst e) = Some s \<and> map_of (node_dict g) (snd e) = Some t \<and>
        astar g s t euclidean_dist_nodes = Inr p \<and> shortest (adj g) s t p)"

section \<open>The exact distance\<close>


lemma sq_sum_Cons [simp]: "sq_sum (x # p) (y # q) = (x - y)\<^sup>2 + sq_sum p q"
  by (simp add: sq_sum_def)

lemma sq_sum_Nil [simp]: "sq_sum [] q = 0"
  by (simp add: sq_sum_def)





section \<open>The distance on integer points\<close>















section \<open>Path expansion\<close>

lemma expand_loop_eq:
  "list_all (\<lambda>e. map_of ed e \<noteq> None) ps \<Longrightarrow>
   expand_loop ed ps full = Inr (full @ concat (map (\<lambda>e. butlast (seg ed e)) ps))"
  by (induction ps arbitrary: full) (auto simp: seg_def)

lemma zip_tl_snoc2:
  "zip (xs @ [a, b]) (tl (xs @ [a, b])) = zip xs (tl (xs @ [a])) @ [(a, b)]"
proof (induction xs)
  case Nil
  show ?case by simp
next
  case (Cons x xs)
  then show ?case by (cases xs) simp_all
qed

lemma route_snoc2:
  assumes "2 \<le> length rp"
  obtains xs a b where "rp = xs @ [a, b]"
proof -
  from assms have "rp \<noteq> []" by auto
  then have 1: "rp = butlast rp @ [last rp]" by simp
  from assms have "butlast rp \<noteq> []" by (cases rp) auto
  then have "butlast rp = butlast (butlast rp) @ [last (butlast rp)]" by simp
  with 1 have "rp = butlast (butlast rp) @ [last (butlast rp), last rp]"
    by (metis append_Cons append_Nil append_assoc)
  then show thesis by (rule that)
qed

lemma expand_path_snoc2:
  "expand_path g (xs @ [a, b]) =
     (case expand_loop (edge_dict g) (zip xs (tl (xs @ [a]))) [] of
        Inl e \<Rightarrow> Inl e
      | Inr full_path \<Rightarrow>
          (case map_of (edge_dict g) (a, b) of
             None \<Rightarrow> Inl KeyError
           | Some p \<Rightarrow> Inr (full_path @ p)))"
proof -
  have 1: "take (length (xs @ [a, b]) - 2) (xs @ [a, b]) = xs"
    by simp
  have 2: "drop 1 (take (length (xs @ [a, b]) - 1) (xs @ [a, b])) = tl (xs @ [a])"
    by (cases xs) simp_all
  have 3: "(xs @ [a, b]) ! (length (xs @ [a, b]) - 2) = a"
    by (simp add: nth_append)
  have 4: "(xs @ [a, b]) ! (length (xs @ [a, b]) - 1) = b"
    by (simp add: nth_append)
  have 5: "\<not> length (xs @ [a, b]) < 2"
    by simp
  show ?thesis
    unfolding expand_path_def Let_def 1 2 3 4 using 5 by (simp split: sum.split)
qed

lemma expand_path_eq:
  assumes "2 \<le> length rp" and "all_stored (edge_dict g) rp"
  shows "expand_path g rp =
    Inr (concat (map butlast (butlast (segments (edge_dict g) rp))) @ last (segments (edge_dict g) rp))"
proof -
  let ?ed = "edge_dict g"
  from assms(1) obtain xs a b where rp: "rp = xs @ [a, b]"
    by (rule route_snoc2)
  let ?es = "zip xs (tl (xs @ [a]))"
  have es: "zip rp (tl rp) = ?es @ [(a, b)]"
    unfolding rp by (rule zip_tl_snoc2)
  have all: "list_all (\<lambda>e. map_of ?ed e \<noteq> None) (?es @ [(a, b)])"
    using assms(2) by (simp add: all_stored_def es)
  then have "list_all (\<lambda>e. map_of ?ed e \<noteq> None) ?es"
    by simp
  then have loop: "expand_loop ?ed ?es [] = Inr (concat (map (\<lambda>e. butlast (seg ?ed e)) ?es))"
    by (simp add: expand_loop_eq)
  from all obtain p where p: "map_of ?ed (a, b) = Some p"
    by auto
  have segs: "segments ?ed rp = map (seg ?ed) ?es @ [p]"
    using p by (simp add: segments_def es seg_def)
  have "expand_path g rp = Inr (concat (map (\<lambda>e. butlast (seg ?ed e)) ?es) @ p)"
    unfolding rp expand_path_snoc2 using loop p by simp
  also have "concat (map (\<lambda>e. butlast (seg ?ed e)) ?es) = concat (map butlast (map (seg ?ed) ?es))"
    by (simp add: comp_def)
  finally show ?thesis
    by (simp add: segs)
qed

lemma expand_path_short: "length rp < 2 \<Longrightarrow> expand_path g rp = Inl IndexError"
  by (simp add: expand_path_def Let_def)

lemma stored_ok_all_stored: "stored_ok ed rp \<Longrightarrow> all_stored ed rp"
  by (auto simp: stored_ok_def all_stored_def list_all_iff joins_def seg_def split: option.splits)

lemma drop_lasts_Cons: "S \<noteq> [] \<Longrightarrow> drop_lasts (p # S) = butlast p @ drop_lasts S"
  by (simp add: drop_lasts_def)

lemma segments_Cons2: "segments ed (u # v # rest) = seg ed (u, v) # segments ed (v # rest)"
  by (simp add: segments_def)

lemma stitch_chain:
  "stored_ok ed (u # v # rest) \<Longrightarrow>
     drop_lasts (segments ed (u # v # rest)) = stitch (segments ed (u # v # rest)) \<and>
     drop_lasts (segments ed (u # v # rest)) \<noteq> [] \<and>
     hd (drop_lasts (segments ed (u # v # rest))) = u \<and>
     last (drop_lasts (segments ed (u # v # rest))) = last (v # rest) \<and>
     length (drop_lasts (segments ed (u # v # rest))) + length rest =
       sum_list (map length (segments ed (u # v # rest)))"
proof (induction rest arbitrary: u v)
  case Nil
  then show ?case
    by (simp add: segments_def stored_ok_def joins_def drop_lasts_def)
next
  case (Cons w rest)
  let ?p = "seg ed (u, v)"
  let ?S' = "segments ed (v # w # rest)"
  let ?W' = "drop_lasts ?S'"
  let ?S = "segments ed (u # v # w # rest)"
  let ?W = "drop_lasts ?S"
  from Cons.prems have p: "?p \<noteq> []" "hd ?p = u" "last ?p = v"
    and ok': "stored_ok ed (v # w # rest)"
    by (simp_all add: stored_ok_def joins_def)
  from Cons.IH [OF ok'] have ih: "?W' = stitch ?S'" "?W' \<noteq> []" "hd ?W' = v"
      "last ?W' = last (w # rest)" "length ?W' + length rest = sum_list (map length ?S')"
    by blast+
  have S: "?S = ?p # ?S'"
    by (rule segments_Cons2)
  have S'ne: "?S' \<noteq> []"
    by (simp add: segments_def)
  then obtain q ps where S': "?S' = q # ps"
    by (cases ?S') auto
  have W: "?W = butlast ?p @ ?W'"
    unfolding S using S'ne by (rule drop_lasts_Cons)
  have W'v: "?W' = v # tl ?W'"
    using ih(2,3) by (cases ?W') auto
  have pv: "?p = butlast ?p @ [v]"
    using p(1,3) by (metis append_butlast_last_id)
  have "stitch ?S = ?p @ tl (stitch ?S')"
    unfolding S S' by simp
  also have "\<dots> = (butlast ?p @ [v]) @ tl ?W'"
    using pv ih(1) by simp
  also have "\<dots> = butlast ?p @ ?W'"
    using W'v by (metis append_Cons append_Nil append_assoc)
  finally have 1: "?W = stitch ?S"
    using W by simp
  have 2: "?W \<noteq> []"
    using W ih(2) by simp
  have 3: "hd ?W = u"
  proof (cases "butlast ?p = []")
    case True
    with pv have "?p = [v]" by simp
    with p(2) have "u = v" by simp
    with True W ih(2,3) show ?thesis by simp
  next
    case False
    then have "hd ?W = hd (butlast ?p)" using W by simp
    also have "\<dots> = hd ?p" using False pv by (metis hd_append2)
    finally show ?thesis using p(2) by simp
  qed
  have 4: "last ?W = last (v # w # rest)"
    using W ih(2,4) by simp
  have lp: "length ?p = Suc (length (butlast ?p))"
    using p(1) by (cases ?p rule: rev_cases) simp_all
  have lW: "length ?W = length (butlast ?p) + length ?W'"
    using W by simp
  have lS: "sum_list (map length ?S) = length ?p + sum_list (map length ?S')"
    using S by simp
  have 5: "length ?W + length (w # rest) = sum_list (map length ?S)"
    using ih(5) lp unfolding lW lS by simp
  from 1 2 3 4 5 show ?case by blast
qed

text \<open>
  C7. For a reduced route of at least two nodes whose consecutive pairs all have a stored
  path, \<open>expand_path\<close> returns the stored paths concatenated, every one but the last
  without its last node. When each stored path runs between the two nodes of its pair, as
  the paths stored by the reduction do, this is the stored paths stitched together, the
  junction shared by two adjacent segments appearing once; the walk starts at the first
  node of the route and ends at its last, and its length is the sum of the segments'
  lengths minus one for every shared junction. A two-node route whose stored
  path is \<open>[S, J, A]\<close> expands to \<open>[S, J, A]\<close>, and the route \<open>S, A, B\<close> with stored paths
  \<open>[S, J, A]\<close> and \<open>[A, K, B]\<close> expands to \<open>[S, J, A, K, B]\<close>.
\<close>

theorem expand_path_stitches:
  "(2 \<le> length rp \<and> all_stored (edge_dict g) rp \<longrightarrow>
      expand_path g rp = Inr (drop_lasts (segments (edge_dict g) rp))) \<and>
   (2 \<le> length rp \<and> stored_ok (edge_dict g) rp \<longrightarrow>
      (\<exists>w. expand_path g rp = Inr w \<and> w = stitch (segments (edge_dict g) rp) \<and>
           hd w = hd rp \<and> last w = last rp \<and>
           length w + (length rp - 2) = sum_list (map length (segments (edge_dict g) rp)))) \<and>
   (map_of (edge_dict g) (S, A) = Some [S, J, A] \<longrightarrow> expand_path g [S, A] = Inr [S, J, A]) \<and>
   (map_of (edge_dict g) (S, A) = Some [S, J, A] \<and> map_of (edge_dict g) (A, B) = Some [A, K, B] \<longrightarrow>
      expand_path g [S, A, B] = Inr [S, J, A, K, B])"
proof (intro conjI impI)
  assume "2 \<le> length rp \<and> all_stored (edge_dict g) rp"
  then show "expand_path g rp = Inr (drop_lasts (segments (edge_dict g) rp))"
    by (simp add: expand_path_eq drop_lasts_def)
next
  assume a: "2 \<le> length rp \<and> stored_ok (edge_dict g) rp"
  then obtain u v rest where rp: "rp = u # v # rest"
    by (cases rp; cases "tl rp") auto
  let ?S = "segments (edge_dict g) rp"
  let ?W = "drop_lasts ?S"
  have e: "expand_path g rp = Inr ?W"
    using a by (simp add: expand_path_eq stored_ok_all_stored drop_lasts_def)
  have "?W = stitch ?S \<and> ?W \<noteq> [] \<and> hd ?W = u \<and> last ?W = last (v # rest) \<and>
         length ?W + length rest = sum_list (map length ?S)"
    unfolding rp using a by (intro stitch_chain) (simp add: rp)
  then have c: "?W = stitch ?S" "hd ?W = u" "last ?W = last (v # rest)"
       "length ?W + length rest = sum_list (map length ?S)"
    by blast+
  have "hd rp = u" "last rp = last (v # rest)" "length rp - 2 = length rest"
    by (simp_all add: rp)
  with c have "?W = stitch ?S" "hd ?W = hd rp" "last ?W = last rp"
       "length ?W + (length rp - 2) = sum_list (map length ?S)"
    by (simp_all only:)
  with e show "\<exists>w. expand_path g rp = Inr w \<and> w = stitch (segments (edge_dict g) rp) \<and>
           hd w = hd rp \<and> last w = last rp \<and>
           length w + (length rp - 2) = sum_list (map length (segments (edge_dict g) rp))"
    by simp
next
  assume "map_of (edge_dict g) (S, A) = Some [S, J, A]"
  then show "expand_path g [S, A] = Inr [S, J, A]"
    by (simp add: expand_path_def)
next
  assume "map_of (edge_dict g) (S, A) = Some [S, J, A] \<and> map_of (edge_dict g) (A, B) = Some [A, K, B]"
  then show "expand_path g [S, A, B] = Inr [S, J, A, K, B]"
    by (simp add: expand_path_def)
qed

text \<open>
  C10. On a route of fewer than two nodes \<open>expand_path\<close> raises \<open>IndexError\<close> (the read of
  \<open>reduced_path[-2]\<close>) and returns no walk; on a route of at least two nodes whose
  consecutive pairs all have a stored path, every index and dictionary access succeeds and
  a walk is returned.
\<close>

theorem expand_path_in_range:
  "(length rp < 2 \<longrightarrow> expand_path g rp = Inl IndexError) \<and>
   (2 \<le> length rp \<and> all_stored (edge_dict g) rp \<longrightarrow> (\<exists>w. expand_path g rp = Inr w))"
  by (simp add: expand_path_short expand_path_eq)

lemma ex_distinct: "distinct [ex_S, ex_J, ex_A, ex_K, ex_B]"
  by (simp add: ex_S_def ex_J_def ex_A_def ex_K_def ex_B_def ex_hallway_def ex_classroom_def)

lemma ex_neq [simp]:
  "ex_S \<noteq> ex_A" "ex_A \<noteq> ex_S" "ex_S \<noteq> ex_B" "ex_B \<noteq> ex_S" "ex_A \<noteq> ex_B" "ex_B \<noteq> ex_A"
  using ex_distinct by auto

lemma ex_edge_dict:
  "edge_dict ex_reduced =
     [((ex_S, ex_A), [ex_S, ex_J, ex_A]), ((ex_A, ex_S), [ex_A, ex_J, ex_S]),
      ((ex_A, ex_B), [ex_A, ex_K, ex_B]), ((ex_B, ex_A), [ex_B, ex_K, ex_A])]"
  by (simp add: ex_reduced_def add_reduced_edge_def)

theorem expand_path_stitches_witness:
  "2 \<le> length [ex_S, ex_A, ex_B] \<and> stored_ok (edge_dict ex_reduced) [ex_S, ex_A, ex_B] \<and>
   map_of (edge_dict ex_reduced) (ex_S, ex_A) = Some [ex_S, ex_J, ex_A] \<and>
   map_of (edge_dict ex_reduced) (ex_A, ex_B) = Some [ex_A, ex_K, ex_B] \<and>
   expand_path ex_reduced [ex_S, ex_A] = Inr [ex_S, ex_J, ex_A] \<and>
   expand_path ex_reduced [ex_S, ex_A, ex_B] = Inr [ex_S, ex_J, ex_A, ex_K, ex_B] \<and>
   stitch (segments (edge_dict ex_reduced) [ex_S, ex_A, ex_B]) = [ex_S, ex_J, ex_A, ex_K, ex_B]"
proof -
  have ok: "stored_ok (edge_dict ex_reduced) [ex_S, ex_A, ex_B]"
    by (simp add: stored_ok_def joins_def seg_def ex_edge_dict)
  have 1: "map_of (edge_dict ex_reduced) (ex_S, ex_A) = Some [ex_S, ex_J, ex_A]"
    and 2: "map_of (edge_dict ex_reduced) (ex_A, ex_B) = Some [ex_A, ex_K, ex_B]"
    by (simp_all add: ex_edge_dict)
  have 3: "stitch (segments (edge_dict ex_reduced) [ex_S, ex_A, ex_B]) = [ex_S, ex_J, ex_A, ex_K, ex_B]"
    by (simp add: segments_def seg_def ex_edge_dict)
  show ?thesis
    using expand_path_stitches [of "[ex_S, ex_A, ex_B]" ex_reduced ex_S ex_A ex_J ex_B ex_K] ok 1 2 3
    by simp
qed

theorem expand_path_in_range_witness:
  "expand_path ex_reduced [] = Inl IndexError \<and> expand_path ex_reduced [ex_S] = Inl IndexError \<and>
   all_stored (edge_dict ex_reduced) [ex_S, ex_A, ex_B] \<and>
   (\<exists>w. expand_path ex_reduced [ex_S, ex_A, ex_B] = Inr w)"
proof -
  have ok: "all_stored (edge_dict ex_reduced) [ex_S, ex_A, ex_B]"
    by (simp add: all_stored_def ex_edge_dict)
  show ?thesis
    using expand_path_in_range [of "[]" ex_reduced] expand_path_in_range [of "[ex_S]" ex_reduced]
      expand_path_in_range [of "[ex_S, ex_A, ex_B]" ex_reduced] ok
    by simp
qed

section \<open>Node equality\<close>

lemma infinite_nodes: "infinite (UNIV :: node set)"
proof
  assume fin: "finite (UNIV :: node set)"
  let ?f = "\<lambda>s. \<lparr>node_type = [], name = s, floor_n = 0, coord = []\<rparr>"
  have "inj ?f"
    by (rule injI) simp
  moreover have "finite (range ?f)"
    using fin by (rule finite_subset [rotated]) simp
  ultimately have "finite (UNIV :: string set)"
    by (rule finite_imageD [rotated])
  then show False
    by (simp add: infinite_UNIV_listI)
qed

lemma node_eq_refl: "a = b \<Longrightarrow> node_eq th sh ch a b"
  by (simp add: node_eq_def)

lemma node_eq_collision: "\<exists>a b. a \<noteq> b \<and> node_eq th sh ch a b"
proof (rule ccontr)
  assume "\<not> (\<exists>a b. a \<noteq> b \<and> node_eq th sh ch a b)"
  then have "inj (node_hash th sh ch)"
    by (auto simp: node_eq_def intro: injI)
  moreover have "finite (range (node_hash th sh ch))"
    by simp
  ultimately have "finite (UNIV :: node set)"
    by (rule finite_imageD [rotated])
  then show False
    using infinite_nodes by simp
qed

lemma int_hash_minus: "int_hash (- 1) = int_hash (- 2)"
  by (simp add: int_hash_def)

text \<open>
  C3. Node equality is meant to hold exactly when the four fields are equal. \<open>__eq__\<close>
  compares hashes instead: two hallway nodes that differ only in the floor, \<open>-1\<close> against
  \<open>-2\<close>, have the same hash whatever the hashes of strings and tuples are, so they compare
  equal although they are different nodes.
\<close>

theorem node_eq_floors_differ:
  "node_eq th sh ch \<lparr>node_type = ''Hallway'', name = ''H'', floor_n = - 1, coord = [0, 0]\<rparr>
                    \<lparr>node_type = ''Hallway'', name = ''H'', floor_n = - 2, coord = [0, 0]\<rparr> \<and>
   \<lparr>node_type = ''Hallway'', name = ''H'', floor_n = - 1, coord = [0, 0]\<rparr> \<noteq>
   \<lparr>node_type = ''Hallway'', name = ''H'', floor_n = - 2, coord = [0::real, 0]\<rparr>"
  by (simp add: node_eq_def node_hash_def int_hash_minus)

section \<open>The example, evaluated\<close>

lemma ex_neq_all [simp]:
  "ex_S \<noteq> ex_J" "ex_S \<noteq> ex_A" "ex_S \<noteq> ex_K" "ex_S \<noteq> ex_B" "ex_J \<noteq> ex_S" "ex_J \<noteq> ex_A" "ex_J \<noteq> ex_K" "ex_J \<noteq> ex_B" "ex_A \<noteq> ex_S" "ex_A \<noteq> ex_J" "ex_A \<noteq> ex_K" "ex_A \<noteq> ex_B" "ex_K \<noteq> ex_S" "ex_K \<noteq> ex_J" "ex_K \<noteq> ex_A" "ex_K \<noteq> ex_B" "ex_B \<noteq> ex_S" "ex_B \<noteq> ex_J" "ex_B \<noteq> ex_A" "ex_B \<noteq> ex_K"
  by (simp_all add: ex_S_def ex_J_def ex_A_def ex_K_def ex_B_def ex_hallway_def ex_classroom_def)

lemma ex_base_adj:
  "adj ex_base =
     [(ex_S, [(ex_J, Some 1)]), (ex_J, [(ex_S, Some 1), (ex_A, Some 1)]),
      (ex_A, [(ex_J, Some 1), (ex_K, Some 1)]), (ex_K, [(ex_A, Some 1), (ex_B, Some 1)]),
      (ex_B, [(ex_K, Some 1)])]"
  by (simp add: ex_base_def add_edge_def add_node_def nbrs_def)

lemma lower_ex: "lower ''Brute Force'' = ''brute force''" "lower ''brute-force'' = ''brute-force''"
  by (simp_all add: lower_def lower_char_def)

lemma ex_path_lens:
  "path_len (adj ex_base) [ex_S, ex_J, ex_A] = Inr 2"
  "path_len (adj ex_base) [ex_S, ex_J, ex_A, ex_K, ex_B] = Inr 4"
  "path_len (adj ex_base) [ex_A, ex_K, ex_B] = Inr 2"
  by (simp_all add: ex_base_adj edge_weight_def)

lemma ex_node_dict:
  "node_dict ex_base = [(''S'', ex_S), (''J'', ex_J), (''A'', ex_A), (''K'', ex_K), (''B'', ex_B)]"
  by (simp add: ex_base_def)

lemma ex_reduce: "reduce_graph ex_search ex_base [''S'', ''A'', ''B''] ''S'' = Inr ex_reduced3"
  by (simp add: reduce_graph_def ex_search_def ex_path_lens add_reduced_edge_def add_edge_def
      add_node_def nbrs_def ex_reduced3_def ex_node_dict del: path_len.simps)

lemma ex_brute: "brute_force ex_reduced3 = Inr (Some [ex_S, ex_A, ex_B], Some 4)"
  by (simp add: brute_force_def permutations_def nodes_def ex_reduced3_def edge_weight_def
      less_than_len_def upt_rec [of 0] upt_rec [of 1] numeral_2_eq_2)

lemma ex_sqrt: "sqrt 4 = 2" "sqrt 16 = 4"
  by (rule real_sqrt_unique; simp)+

lemma ex_dists:
  "euclidean_dist_nodes ex_S ex_A = Inr 2" "euclidean_dist_nodes ex_S ex_B = Inr 4"
  "euclidean_dist_nodes ex_A ex_B = Inr 2" "euclidean_dist_nodes ex_A ex_S = Inr 2"
  "euclidean_dist_nodes ex_B ex_S = Inr 4" "euclidean_dist_nodes ex_B ex_A = Inr 2"
  by (simp_all add: euclidean_dist_nodes_def euclidean_dist_def ex_S_def ex_A_def ex_B_def
      ex_classroom_def ex_sqrt)

lemma ex_greedy_loop:
  "greedy_loop (\<lambda>cs n. 0) (adj ex_reduced3) [ex_S] {ex_S} ex_S = Inr [ex_S, ex_A, ex_B]"
  by (simp add: greedy_loop.simps [of _ _ _ _ ex_S] greedy_loop.simps [of _ _ _ _ ex_A]
      greedy_loop.simps [of _ _ _ _ ex_B] neighbors_def ex_reduced3_def py_min_def ex_dists)

lemma ex_start: "start ex_reduced3 = ex_S"
  by (simp add: ex_reduced3_def)

lemma ex_greedy: "greedy (\<lambda>cs n. 0) ex_reduced3 = Inr ([ex_S, ex_A, ex_B], 4)"
  by (simp add: greedy_def ex_greedy_loop ex_start) (simp add: ex_reduced3_def edge_weight_def)

lemma ex_expand: "expand_path ex_reduced3 [ex_S, ex_A, ex_B] = Inr [ex_S, ex_J, ex_A, ex_K, ex_B]"
  by (simp add: expand_path_def ex_reduced3_def)

section \<open>Algorithm names\<close>

lemma unknown_name_raises:
  assumes "lower algorithm \<noteq> ''greedy''" and "lower algorithm \<noteq> ''brute force''"
  shows "tsp_solver slot astar graph ns s algorithm =
     (case reduce_graph astar graph ns s of
        Inl e \<Rightarrow> Inl e
      | Inr reduced \<Rightarrow> Inl (NotImplementedError (not_implemented_msg algorithm)))"
  using assms by (simp add: tsp_solver_def split: sum.splits)

text \<open>
  C5, amended. The names the solver accepts are those whose lower-case form is \<open>greedy\<close>
  or \<open>brute force\<close> (with a space). For every other name no route is produced: when the
  reduction succeeds, \<open>tsp_solver\<close> raises \<open>NotImplementedError\<close> with a message that quotes
  the name and lists \<open>greedy\<close> and \<open>brute force\<close>; when the reduction raises, that
  exception is the result, since the reduction runs first.
\<close>

theorem tsp_solver_unknown_algorithm:
  "lower algorithm \<noteq> ''greedy'' \<Longrightarrow> lower algorithm \<noteq> ''brute force'' \<Longrightarrow>
   (\<forall>r. tsp_solver slot astar graph ns s algorithm \<noteq> Inr r) \<and>
   (\<forall>reduced. reduce_graph astar graph ns s = Inr reduced \<longrightarrow>
      tsp_solver slot astar graph ns s algorithm =
        Inl (NotImplementedError (not_implemented_msg algorithm))) \<and>
   not_implemented_msg algorithm =
     [CHR 0x22] @ algorithm @ [CHR 0x22] @
     '' is not recognized as an implemented algorithm. Implemented algorithms: '' @
     [CHR 0x0A, CHR 0x09] @ ''- greedy'' @ [CHR 0x0A, CHR 0x09] @ ''- brute force''"
  by (simp add: unknown_name_raises not_implemented_msg_def bullet_points_def implemented_def
      split: sum.splits)

theorem tsp_solver_unknown_algorithm_witness:
  "lower ''brute-force'' \<noteq> ''greedy'' \<and> lower ''brute-force'' \<noteq> ''brute force'' \<and>
   reduce_graph ex_search ex_base [''S'', ''A'', ''B''] ''S'' = Inr ex_reduced3 \<and>
   tsp_solver (\<lambda>cs n. 0) ex_search ex_base [''S'', ''A'', ''B''] ''S'' ''brute-force'' =
     Inl (NotImplementedError (not_implemented_msg ''brute-force''))"
proof -
  have l: "lower ''brute-force'' \<noteq> ''greedy''" "lower ''brute-force'' \<noteq> ''brute force''"
    by (simp_all add: lower_def lower_char_def)
  show ?thesis
    using tsp_solver_unknown_algorithm [OF l, of "\<lambda>cs n. 0" ex_search ex_base "[''S'', ''A'', ''B'']" "''S''"]
      l ex_reduce
    by simp
qed

text \<open>
  C5 as stated fails: \<open>brute force\<close> and \<open>GREEDY\<close> are outside the set of \<open>brute-force\<close>
  and \<open>greedy\<close>, and the solver returns a route for them; \<open>brute-force\<close> is rejected.
\<close>

theorem tsp_solver_names_counterexample:
  "''brute force'' \<notin> {''brute-force'', ''greedy''} \<and>
   tsp_solver (\<lambda>cs n. 0) ex_search ex_base [''S'', ''A'', ''B''] ''S'' ''brute force'' =
     Inr ([ex_S, ex_J, ex_A, ex_K, ex_B], Some 4) \<and>
   ''GREEDY'' \<notin> {''brute-force'', ''greedy''} \<and>
   tsp_solver (\<lambda>cs n. 0) ex_search ex_base [''S'', ''A'', ''B''] ''S'' ''GREEDY'' =
     Inr ([ex_S, ex_J, ex_A, ex_K, ex_B], Some 4) \<and>
   tsp_solver (\<lambda>cs n. 0) ex_search ex_base [''S'', ''A'', ''B''] ''S'' ''brute-force'' =
     Inl (NotImplementedError (not_implemented_msg ''brute-force''))"
proof -
  have l: "lower ''brute force'' = ''brute force''" "lower ''GREEDY'' = ''greedy''"
    "lower ''brute-force'' = ''brute-force''"
    by (simp_all add: lower_def lower_char_def)
  show ?thesis
    by (simp add: tsp_solver_def l ex_reduce ex_brute ex_greedy ex_expand)
qed

section \<open>The brute-force solver\<close>

lemma nth_rest_mset:
  "i < length xs \<Longrightarrow> add_mset (xs ! i) (mset (take i xs @ drop (Suc i) xs)) = mset xs"
proof -
  assume "i < length xs"
  then have "xs = take i xs @ xs ! i # drop (Suc i) xs"
    by (rule id_take_nth_drop)
  then have "mset xs = mset (take i xs @ xs ! i # drop (Suc i) xs)"
    by simp
  then show ?thesis
    by simp
qed

lemma perms_of_length_set:
  "length xs = n \<Longrightarrow> set (perms_of_length n xs) = {p. mset p = mset xs}"
proof (induction n arbitrary: xs)
  case 0
  then show ?case by simp
next
  case (Suc n)
  have rest_len: "length (take i xs @ drop (Suc i) xs) = n" if "i < length xs" for i
    using that Suc.prems by simp
  show ?case
  proof (intro set_eqI iffI)
    fix p
    assume "p \<in> set (perms_of_length (Suc n) xs)"
    then obtain i q where i: "i < length xs" and p: "p = xs ! i # q"
      and q: "q \<in> set (perms_of_length n (take i xs @ drop (Suc i) xs))"
      by auto
    from q Suc.IH [OF rest_len [OF i]] have "mset q = mset (take i xs @ drop (Suc i) xs)"
      by simp
    then have "mset p = mset xs"
      using nth_rest_mset [OF i] p by simp
    then show "p \<in> {p. mset p = mset xs}"
      by simp
  next
    fix p
    assume "p \<in> {p. mset p = mset xs}"
    then have m: "mset p = mset xs"
      by simp
    then have "length p = Suc n"
      using Suc.prems by (metis mset_eq_length)
    then obtain y q where p: "p = y # q"
      by (cases p) auto
    from m p have "y \<in> set xs"
      by (metis list.set_intros(1) mset_eq_setD)
    then obtain i where i: "i < length xs" and y: "xs ! i = y"
      by (auto simp: in_set_conv_nth)
    have "add_mset y (mset q) = add_mset y (mset (take i xs @ drop (Suc i) xs))"
      using m p nth_rest_mset [OF i] y by simp
    then have "mset q = mset (take i xs @ drop (Suc i) xs)"
      by simp
    then have "q \<in> set (perms_of_length n (take i xs @ drop (Suc i) xs))"
      using Suc.IH [OF rest_len [OF i]] by simp
    then show "p \<in> set (perms_of_length (Suc n) xs)"
      using i y p by auto
  qed
qed

lemma permutations_set: "set (permutations xs) = {p. mset p = mset xs}"
  by (simp add: permutations_def perms_of_length_set)

lemma complete_edge:
  assumes "complete a" and "u \<in> set (nodes a)" and "v \<in> set (nodes a)" and "u \<noteq> v"
  shows "\<exists>w. edge_weight a u v = Inr w"
proof -
  from assms(2) obtain m where um: "(u, m) \<in> set a"
    by (auto simp: nodes_def)
  have d: "distinct (map fst a)"
    using assms(1) by (simp add: complete_def nodes_def)
  then have mu: "map_of a u = Some m"
    using um by simp
  have "\<forall>e \<in> set a. set (nodes a) - {fst e} \<subseteq> set (map fst (snd e))"
    using assms(1) by (simp add: complete_def list_all_iff)
  with um have "set (nodes a) - {fst (u, m)} \<subseteq> set (map fst (snd (u, m)))"
    by (rule_tac bspec)
  then have "v \<in> fst ` set m"
    using assms(3,4) by auto
  then obtain x where "map_of m v = Some x"
    by (metis domD dom_map_of_conv_image_fst)
  then show ?thesis
    using mu by (cases x) (simp_all add: edge_weight_def)
qed

lemma complete_path_len:
  "complete a \<Longrightarrow> distinct path \<Longrightarrow> set path \<subseteq> set (nodes a) \<Longrightarrow> \<exists>l. path_len a path = Inr l"
proof (induction a path rule: path_len.induct)
  case (1 a u v rest)
  from "1.prems" have "u \<in> set (nodes a)" "v \<in> set (nodes a)" "u \<noteq> v"
    by auto
  with "1.prems"(1) obtain w where w: "edge_weight a u v = Inr w"
    using complete_edge [of a u v] by auto
  from "1.prems" have "distinct (v # rest)" "set (v # rest) \<subseteq> set (nodes a)"
    by auto
  with "1.IH" [OF w "1.prems"(1)] obtain s where "path_len a (v # rest) = Inr s"
    by auto
  with w show ?case by simp
qed simp_all

lemma others_perm:
  assumes "complete (adj g)" and "start g \<in> set (nodes (adj g))" and "mset q = mset (others g)"
  shows "distinct (start g # q)" and "set (start g # q) = set (nodes (adj g))"
proof -
  have d: "distinct (others g)"
    using assms(1) by (simp add: others_def complete_def)
  then have "distinct q"
    using assms(3) by (metis mset_eq_imp_distinct_iff)
  moreover have s: "set q = set (others g)"
    using assms(3) by (rule mset_eq_setD)
  ultimately show "distinct (start g # q)"
    by (simp add: others_def)
  show "set (start g # q) = set (nodes (adj g))"
    using s assms(2) by (auto simp: others_def)
qed

lemma others_path_len:
  assumes "complete (adj g)" and "start g \<in> set (nodes (adj g))" and "mset q = mset (others g)"
  shows "\<exists>l. path_len (adj g) (start g # q) = Inr l"
  using assms(1) others_perm [OF assms] by (intro complete_path_len) simp_all

lemma brute_loop_spec:
  assumes "\<forall>p \<in> set ps. \<exists>l. path_len (adj g) (start g # p) = Inr l"
    and "sl = None \<longleftrightarrow> sp = None"
  shows "\<exists>sp' sl'. brute_loop g ps sp sl = Inr (sp', sl') \<and> brute_post g ps sp sl sp' sl'"
  using assms
proof (induction ps arbitrary: sp sl)
  case Nil
  then show ?case by (simp add: brute_post_def)
next
  case (Cons p ps)
  from Cons.prems(1) obtain l where l: "path_len (adj g) (start g # p) = Inr l"
    by auto
  have rest: "\<forall>p \<in> set ps. \<exists>l. path_len (adj g) (start g # p) = Inr l"
    using Cons.prems(1) by simp
  show ?case
  proof (cases "less_than_len l sl")
    case True
    have "(Some l = None) \<longleftrightarrow> (Some (start g # p) = None)"
      by simp
    from Cons.IH [OF rest this] obtain sp' sl' where
      r: "brute_loop g ps (Some (start g # p)) (Some l) = Inr (sp', sl')"
      and post: "brute_post g ps (Some (start g # p)) (Some l) sp' sl'"
      by blast
    from post obtain l' where l': "sl' = Some l'" "l' \<le> l"
      by (auto simp: brute_post_def)
    have 1: "brute_loop g (p # ps) sp sl = Inr (sp', sl')"
      using l True r by simp
    have 2: "(sp' = sp \<and> sl' = sl) \<or>
       (\<exists>p \<in> set (p # ps). sp' = Some (start g # p) \<and> (\<exists>l. sl' = Some l \<and> path_len (adj g) (start g # p) = Inr l))"
      using post l unfolding brute_post_def by auto
    have 3: "\<forall>q \<in> set (p # ps). \<forall>k. path_len (adj g) (start g # q) = Inr k \<longrightarrow> (\<exists>l'. sl' = Some l' \<and> l' \<le> k)"
      using post l l' unfolding brute_post_def by auto
    have 4: "\<forall>k. sl = Some k \<longrightarrow> (\<exists>l'. sl' = Some l' \<and> l' \<le> k)"
      using True l' by (auto simp: less_than_len_def)
    have 5: "sl' = None \<longleftrightarrow> sp' = None"
      using post unfolding brute_post_def by blast
    have "brute_post g (p # ps) sp sl sp' sl'"
      unfolding brute_post_def using 5 2 3 4 by - ((rule conjI, assumption)+, assumption)
    with 1 show ?thesis
      by - (rule exI [of _ sp'], rule exI [of _ sl'], rule conjI, assumption+)
  next
    case False
    then obtain s where s: "sl = Some s" "s \<le> l"
      by (auto simp: less_than_len_def split: option.splits)
    from Cons.IH [OF rest Cons.prems(2)] obtain sp' sl' where
      r: "brute_loop g ps sp sl = Inr (sp', sl')"
      and post: "brute_post g ps sp sl sp' sl'"
      by blast
    from post s obtain l' where l': "sl' = Some l'" "l' \<le> s"
      by (auto simp: brute_post_def)
    have 1: "brute_loop g (p # ps) sp sl = Inr (sp', sl')"
      using l False r by simp
    have 2: "(sp' = sp \<and> sl' = sl) \<or>
       (\<exists>p \<in> set (p # ps). sp' = Some (start g # p) \<and> (\<exists>l. sl' = Some l \<and> path_len (adj g) (start g # p) = Inr l))"
      using post unfolding brute_post_def by auto
    have 3: "\<forall>q \<in> set (p # ps). \<forall>k. path_len (adj g) (start g # q) = Inr k \<longrightarrow> (\<exists>l'. sl' = Some l' \<and> l' \<le> k)"
      using post l l' s unfolding brute_post_def by auto
    have 4: "\<forall>k. sl = Some k \<longrightarrow> (\<exists>l'. sl' = Some l' \<and> l' \<le> k)"
      using post unfolding brute_post_def by blast
    have 5: "sl' = None \<longleftrightarrow> sp' = None"
      using post unfolding brute_post_def by blast
    have "brute_post g (p # ps) sp sl sp' sl'"
      unfolding brute_post_def using 5 2 3 4 by - ((rule conjI, assumption)+, assumption)
    with 1 show ?thesis
      by - (rule exI [of _ sp'], rule exI [of _ sl'], rule conjI, assumption+)
  qed
qed

lemma brute_force_spec:
  assumes "complete (adj g)" and "start g \<in> set (nodes (adj g))"
  shows "\<exists>p l. brute_force g = Inr (Some (start g # p), Some l) \<and> mset p = mset (others g) \<and>
           path_len (adj g) (start g # p) = Inr l \<and>
           (\<forall>q. mset q = mset (others g) \<longrightarrow>
              (\<exists>l'. path_len (adj g) (start g # q) = Inr l' \<and> l \<le> l'))"
proof -
  let ?ps = "permutations (others g)"
  have ps: "set ?ps = {p. mset p = mset (others g)}"
    by (rule permutations_set)
  have ok: "\<forall>p \<in> set ?ps. \<exists>l. path_len (adj g) (start g # p) = Inr l"
    using ps others_path_len [OF assms] by auto
  have "(None :: real option) = None \<longleftrightarrow> (None :: node list option) = None"
    by simp
  from brute_loop_spec [OF ok this] obtain sp' sl' where
    r: "brute_loop g ?ps None None = Inr (sp', sl')"
    and post: "brute_post g ?ps None None sp' sl'"
    by blast
  have m: "\<forall>p \<in> set ?ps. \<forall>l. path_len (adj g) (start g # p) = Inr l \<longrightarrow> (\<exists>l'. sl' = Some l' \<and> l' \<le> l)"
    using post unfolding brute_post_def by blast
  have "others g \<in> set ?ps"
    using ps by simp
  with ok m have "sl' \<noteq> None"
    by fastforce
  with post obtain p l where p: "p \<in> set ?ps" "sp' = Some (start g # p)" "sl' = Some l"
      "path_len (adj g) (start g # p) = Inr l"
    unfolding brute_post_def by auto
  have "\<exists>l'. path_len (adj g) (start g # q) = Inr l' \<and> l \<le> l'" if "mset q = mset (others g)" for q
  proof -
    from that have "q \<in> set ?ps" using ps by simp
    with ok m p(3) show ?thesis by fastforce
  qed
  moreover have "brute_force g = Inr (Some (start g # p), Some l)"
    using r p by (simp add: brute_force_def others_def)
  moreover have "mset p = mset (others g)"
    using p(1) ps by simp
  ultimately show ?thesis
    using p(4) by blast
qed

text \<open>
  C4. On a complete reduced graph that contains its start node, \<open>_brute_force\<close> returns a
  path made of the start followed by a permutation of the other nodes, together with the
  length of that path, and this length is at most the length of the start followed by any
  permutation of the other nodes.
\<close>

theorem brute_force_optimal:
  "complete (adj g) \<Longrightarrow> start g \<in> set (nodes (adj g)) \<Longrightarrow>
   \<exists>p l. brute_force g = Inr (Some (start g # p), Some l) \<and> mset p = mset (others g) \<and>
         path_len (adj g) (start g # p) = Inr l \<and>
         (\<forall>q. mset q = mset (others g) \<longrightarrow>
            (\<exists>l'. path_len (adj g) (start g # q) = Inr l' \<and> l \<le> l'))"
  by (rule brute_force_spec)

lemma ex_complete: "complete (adj ex_reduced3)"
  by (simp add: complete_def ex_reduced3_def nodes_def) auto

lemma ex_nodes: "nodes (adj ex_reduced3) = [ex_S, ex_A, ex_B]"
  by (simp add: ex_reduced3_def nodes_def)

lemma ex_others: "others ex_reduced3 = [ex_A, ex_B]"
  by (simp add: others_def ex_nodes ex_start)

lemma ex_same_dims: "same_dims (adj ex_reduced3)"
  by (simp add: same_dims_def ex_nodes ex_S_def ex_A_def ex_B_def ex_classroom_def)

theorem brute_force_optimal_witness:
  "complete (adj ex_reduced3) \<and> start ex_reduced3 \<in> set (nodes (adj ex_reduced3)) \<and>
   brute_force ex_reduced3 = Inr (Some [ex_S, ex_A, ex_B], Some 4) \<and>
   mset [ex_A, ex_B] = mset (others ex_reduced3) \<and>
   path_len (adj ex_reduced3) [ex_S, ex_B, ex_A] = Inr 6 \<and>
   (\<exists>p l. brute_force ex_reduced3 = Inr (Some (start ex_reduced3 # p), Some l) \<and>
      mset p = mset (others ex_reduced3) \<and>
      (\<exists>l'. path_len (adj ex_reduced3) (start ex_reduced3 # [ex_B, ex_A]) = Inr l' \<and> l \<le> l'))"
proof -
  have s: "start ex_reduced3 \<in> set (nodes (adj ex_reduced3))"
    by (simp add: ex_nodes ex_start)
  have m: "mset [ex_B, ex_A] = mset (others ex_reduced3)"
    by (simp add: ex_others)
  have 6: "path_len (adj ex_reduced3) [ex_S, ex_B, ex_A] = Inr 6"
    by (simp add: ex_reduced3_def edge_weight_def)
  from brute_force_optimal [OF ex_complete s] obtain p l where
    pl: "brute_force ex_reduced3 = Inr (Some (start ex_reduced3 # p), Some l)"
      "mset p = mset (others ex_reduced3)"
      "\<forall>q. mset q = mset (others ex_reduced3) \<longrightarrow>
         (\<exists>l'. path_len (adj ex_reduced3) (start ex_reduced3 # q) = Inr l' \<and> l \<le> l')"
    by auto
  from pl(3) m have "\<exists>l'. path_len (adj ex_reduced3) (start ex_reduced3 # [ex_B, ex_A]) = Inr l' \<and> l \<le> l'"
    by blast
  with pl(1,2) have e: "\<exists>p l. brute_force ex_reduced3 = Inr (Some (start ex_reduced3 # p), Some l) \<and>
      mset p = mset (others ex_reduced3) \<and>
      (\<exists>l'. path_len (adj ex_reduced3) (start ex_reduced3 # [ex_B, ex_A]) = Inr l' \<and> l \<le> l')"
    by blast
  have m': "mset [ex_A, ex_B] = mset (others ex_reduced3)"
    by (simp add: ex_others)
  from ex_complete s ex_brute m' 6 e show ?thesis
    by - (intro conjI, assumption+)
qed

section \<open>The greedy solver\<close>

lemma min_loop_min:
  "min_loop key best bk ys = Inr r \<Longrightarrow> key best = Inr bk \<Longrightarrow>
   \<exists>kr. key r = Inr kr \<and> kr \<le> bk \<and> (\<forall>y \<in> set ys. \<exists>k. key y = Inr k \<and> kr \<le> k)"
proof (induction ys arbitrary: best bk)
  case Nil
  then show ?case by simp
next
  case (Cons y ys)
  from Cons.prems(1) obtain k where k: "key y = Inr k"
    by (auto split: sum.splits)
  show ?case
  proof (cases "k < bk")
    case True
    with Cons.prems k have "min_loop key y k ys = Inr r" by simp
    from Cons.IH [OF this k] obtain kr where "key r = Inr kr" "kr \<le> k"
        "\<forall>y \<in> set ys. \<exists>k. key y = Inr k \<and> kr \<le> k"
      by auto
    with True k show ?thesis by auto
  next
    case False
    with Cons.prems k have "min_loop key best bk ys = Inr r" by simp
    from Cons.IH [OF this Cons.prems(2)] obtain kr where "key r = Inr kr" "kr \<le> bk"
        "\<forall>y \<in> set ys. \<exists>k. key y = Inr k \<and> kr \<le> k"
      by auto
    with False k show ?thesis by auto
  qed
qed

lemma py_min_min:
  assumes "py_min key xs = Inr r"
  shows "\<exists>kr. key r = Inr kr \<and> (\<forall>x \<in> set xs. \<exists>k. key x = Inr k \<and> kr \<le> k)"
proof (cases xs)
  case Nil
  with assms show ?thesis by (simp add: py_min_def)
next
  case (Cons x rest)
  with assms obtain k where k: "key x = Inr k" and m: "min_loop key x k rest = Inr r"
    by (auto simp: py_min_def split: sum.splits)
  from min_loop_min [OF m k] obtain kr where "key r = Inr kr" "kr \<le> k"
      "\<forall>y \<in> set rest. \<exists>k. key y = Inr k \<and> kr \<le> k"
    by auto
  with k Cons show ?thesis by auto
qed

lemma min_loop_ok:
  "\<forall>y \<in> set ys. \<exists>k. key y = Inr k \<Longrightarrow> \<exists>r. min_loop key best bk ys = Inr r"
  by (induction ys arbitrary: best bk) auto

lemma py_min_ok:
  "xs \<noteq> [] \<Longrightarrow> \<forall>x \<in> set xs. \<exists>k. key x = Inr k \<Longrightarrow> \<exists>r. py_min key xs = Inr r"
  by (cases xs) (auto simp: py_min_def min_loop_ok)

lemma greedy_loop_steps:
  "greedy_loop slot a gp visited cur = Inr gp' \<Longrightarrow> visited = set gp \<Longrightarrow>
   \<exists>rest. gp' = gp @ rest \<and> nearest_steps a gp cur rest"
proof (induction slot a gp visited cur arbitrary: gp' rule: greedy_loop.induct)
  case (1 slot a gp visited cur)
  from "1.prems"(1) obtain ns where ns: "neighbors a cur = Inr ns"
    by (subst (asm) greedy_loop.simps) (auto split: sum.splits)
  let ?cands = "filter (\<lambda>n. n \<notin> visited) ns"
  have cands: "candidates a gp cur = ?cands"
    using ns "1.prems"(2) by (simp add: candidates_def)
  show ?case
  proof (cases ?cands)
    case Nil
    with "1.prems"(1) ns have "gp' = gp"
      by (subst (asm) greedy_loop.simps) simp
    with Nil cands show ?thesis by simp
  next
    case (Cons c cs)
    let ?key = "euclidean_dist_nodes cur"
    from "1.prems"(1) ns Cons obtain nearest where
      m: "py_min ?key (sort_key (slot (c # cs)) (c # cs)) = Inr nearest"
      and r: "greedy_loop slot a (gp @ [nearest]) (insert nearest visited) nearest = Inr gp'"
      by (subst (asm) greedy_loop.simps) (auto split: sum.splits)
    have "insert nearest visited = set (gp @ [nearest])"
      using "1.prems"(2) by simp
    from "1.IH" [OF ns Cons m r this] obtain rest where
      rest: "gp' = (gp @ [nearest]) @ rest" "nearest_steps a (gp @ [nearest]) nearest rest"
      by auto
    have sc: "set (sort_key (slot (c # cs)) (c # cs)) = set ?cands"
      unfolding Cons by (simp only: set_sort)
    from py_min_in [OF m] sc have 1: "nearest \<in> set (candidates a gp cur)"
      by (simp add: cands)
    from py_min_min [OF m] obtain kr where kr: "?key nearest = Inr kr"
      "\<forall>x \<in> set (sort_key (slot (c # cs)) (c # cs)). \<exists>k. ?key x = Inr k \<and> kr \<le> k"
      by auto
    have 2: "list_all (no_farther cur nearest) (candidates a gp cur)"
      unfolding cands list_all_iff
    proof
      fix x assume "x \<in> set ?cands"
      with kr(2) sc obtain k where "?key x = Inr k" "kr \<le> k"
        by auto
      with kr(1) show "no_farther cur nearest x"
        by (simp add: no_farther_def)
    qed
    from 1 2 rest have "gp' = gp @ (nearest # rest) \<and> nearest_steps a gp cur (nearest # rest)"
      by simp
    then show ?thesis by blast
  qed
qed

lemma complete_neighbors:
  assumes "complete a" and "cur \<in> set (nodes a)"
  shows "\<exists>ns. neighbors a cur = Inr ns \<and> set ns \<subseteq> set (nodes a) \<and> set (nodes a) - {cur} \<subseteq> set ns"
proof -
  from assms(2) obtain m where um: "(cur, m) \<in> set a"
    by (auto simp: nodes_def)
  have "distinct (map fst a)"
    using assms(1) by (simp add: complete_def nodes_def)
  then have mu: "map_of a cur = Some m"
    using um by simp
  have all: "\<forall>e \<in> set a. set (map fst (snd e)) \<subseteq> set (nodes a) \<and> set (nodes a) - {fst e} \<subseteq> set (map fst (snd e))"
    using assms(1) by (simp add: complete_def list_all_iff)
  have "set (map fst (snd (cur, m))) \<subseteq> set (nodes a) \<and>
      set (nodes a) - {fst (cur, m)} \<subseteq> set (map fst (snd (cur, m)))"
    using all um by (rule bspec)
  then have b: "set (map fst m) \<subseteq> set (nodes a)" "set (nodes a) - {cur} \<subseteq> set (map fst m)"
    by (simp_all only: fst_conv snd_conv)
  have c: "neighbors a cur = Inr (map fst m)"
    using mu by (simp add: neighbors_def)
  from c b show ?thesis
    by - (rule exI [of _ "map fst m"], intro conjI, assumption+)
qed

lemma same_dims_dist:
  assumes "same_dims a" and "u \<in> set (nodes a)" and "v \<in> set (nodes a)"
  shows "\<exists>d. euclidean_dist_nodes u v = Inr d"
proof -
  from assms(1) have all: "\<forall>u \<in> set (nodes a). \<forall>v \<in> set (nodes a). length (coord u) = length (coord v)"
    unfolding same_dims_def list_all_iff .
  from all assms(2) have "\<forall>v \<in> set (nodes a). length (coord u) = length (coord v)"
    by (rule bspec)
  from this assms(3) have "length (coord u) = length (coord v)"
    by (rule bspec)
  then show ?thesis
    by (simp add: euclidean_dist_nodes_def euclidean_dist_def)
qed

lemma greedy_loop_complete:
  "complete a \<Longrightarrow> same_dims a \<Longrightarrow> cur \<in> set (nodes a) \<Longrightarrow> visited = set gp \<Longrightarrow>
   set gp \<subseteq> set (nodes a) \<Longrightarrow> distinct gp \<Longrightarrow> cur \<in> set gp \<Longrightarrow>
   \<exists>gp'. greedy_loop slot a gp visited cur = Inr gp' \<and> distinct gp' \<and> set gp' = set (nodes a) \<and>
         (\<exists>rest. gp' = gp @ rest)"
proof (induction slot a gp visited cur rule: greedy_loop.induct)
  case (1 slot a gp visited cur)
  from complete_neighbors [OF "1.prems"(1,3)] obtain ns where
    ns: "neighbors a cur = Inr ns" and sub: "set ns \<subseteq> set (nodes a)"
    and sup: "set (nodes a) - {cur} \<subseteq> set ns"
    by auto
  let ?cands = "filter (\<lambda>n. n \<notin> visited) ns"
  show ?case
  proof (cases ?cands)
    case Nil
    then have "set ns \<subseteq> visited"
      by (auto simp: filter_empty_conv)
    with sup "1.prems"(4,7) have "set (nodes a) \<subseteq> set gp"
      by auto
    with "1.prems"(5) have "set gp = set (nodes a)"
      by auto
    moreover have "greedy_loop slot a gp visited cur = Inr gp"
      using ns Nil by (subst greedy_loop.simps) simp
    ultimately show ?thesis
      using "1.prems"(6) by simp
  next
    case (Cons c cs)
    let ?key = "euclidean_dist_nodes cur"
    let ?xs = "sort_key (slot (c # cs)) (c # cs)"
    have sc: "set ?xs = set ?cands"
      unfolding Cons by (simp only: set_sort)
    have cn: "set ?cands \<subseteq> set (nodes a)"
      using sub by auto
    have "\<forall>x \<in> set ?xs. \<exists>k. ?key x = Inr k"
      using sc cn same_dims_dist [OF "1.prems"(2,3)] by auto
    moreover have "?xs \<noteq> []"
      using sc Cons by auto
    ultimately obtain nearest where m: "py_min ?key ?xs = Inr nearest"
      using py_min_ok by blast
    from py_min_in [OF m] sc have n: "nearest \<in> set ns" "nearest \<notin> visited"
      by auto
    then have nn: "nearest \<in> set (nodes a)"
      using sub by auto
    have "\<exists>gp'. greedy_loop slot a (gp @ [nearest]) (insert nearest visited) nearest = Inr gp' \<and>
        distinct gp' \<and> set gp' = set (nodes a) \<and> (\<exists>rest. gp' = (gp @ [nearest]) @ rest)"
      using "1.prems" n nn by (intro "1.IH" [OF ns Cons m]) auto
    then obtain gp' rest where
      r: "greedy_loop slot a (gp @ [nearest]) (insert nearest visited) nearest = Inr gp'"
      and d: "distinct gp'" "set gp' = set (nodes a)" and e: "gp' = (gp @ [nearest]) @ rest"
      by blast
    have "greedy_loop slot a gp visited cur = Inr gp'"
      using ns Cons m r by (subst greedy_loop.simps) simp
    moreover have "gp' = gp @ (nearest # rest)"
      using e by simp
    ultimately show ?thesis
      using d by blast
  qed
qed

lemma greedy_complete:
  assumes "complete (adj g)" and "same_dims (adj g)" and "start g \<in> set (nodes (adj g))"
  shows "\<exists>rest l. greedy slot g = Inr (start g # rest, l) \<and> mset rest = mset (others g) \<and>
           path_len (adj g) (start g # rest) = Inr l \<and>
           nearest_steps (adj g) [start g] (start g) rest"
proof -
  have "\<exists>gp'. greedy_loop slot (adj g) [start g] {start g} (start g) = Inr gp' \<and> distinct gp' \<and>
      set gp' = set (nodes (adj g)) \<and> (\<exists>rest. gp' = [start g] @ rest)"
    using assms by (intro greedy_loop_complete) simp_all
  then obtain gp' rest where r: "greedy_loop slot (adj g) [start g] {start g} (start g) = Inr gp'"
    and d: "distinct gp'" and s: "set gp' = set (nodes (adj g))" and e: "gp' = start g # rest"
    by auto
  have "{start g} = set [start g]"
    by simp
  from greedy_loop_steps [OF r this] e have steps: "nearest_steps (adj g) [start g] (start g) rest"
    by simp
  have dr: "distinct rest" "start g \<notin> set rest"
    using d e by simp_all
  have "set rest = set (others g)"
    using s e dr by (auto simp: others_def)
  moreover have "distinct (others g)"
    using assms(1) by (simp add: others_def complete_def)
  ultimately have m: "mset rest = mset (others g)"
    using dr(1) by (simp add: set_eq_iff_mset_eq_distinct)
  from others_path_len [OF assms(1,3) m] obtain l where l: "path_len (adj g) (start g # rest) = Inr l"
    by auto
  have "greedy slot g = Inr (start g # rest, l)"
    using r e l by (simp add: greedy_def)
  with m l steps show ?thesis
    by blast
qed

text \<open>
  C1, amended. When \<open>_greedy\<close> returns, its path is the start followed by nodes each of
  which was, when appended, an unvisited neighbour of the current node with no unvisited
  neighbour nearer in a straight line (\<open>euclidean_dist_nodes\<close> on the coordinates, not the
  weight of the reduced edge), and no unvisited neighbour of the last node is left; the
  length returned is \<open>_path_len\<close> of that path. On a complete reduced graph that contains
  its start and whose coordinates have one dimension, \<open>_greedy\<close> returns, and its path
  visits every node of the graph exactly once.
\<close>

theorem greedy_nearest_euclidean:
  "(greedy slot g = Inr (path, l) \<longrightarrow>
      (\<exists>rest. path = start g # rest \<and> nearest_steps (adj g) [start g] (start g) rest) \<and>
      path_len (adj g) path = Inr l) \<and>
   (complete (adj g) \<and> same_dims (adj g) \<and> start g \<in> set (nodes (adj g)) \<longrightarrow>
      (\<exists>rest l. greedy slot g = Inr (start g # rest, l) \<and>
         nearest_steps (adj g) [start g] (start g) rest \<and>
         distinct (start g # rest) \<and> set (start g # rest) = set (nodes (adj g))))"
proof (intro conjI impI)
  assume a: "greedy slot g = Inr (path, l)"
  then obtain gp' where r: "greedy_loop slot (adj g) [start g] {start g} (start g) = Inr gp'"
    and p: "path_len (adj g) gp' = Inr l" and e: "path = gp'"
    by (auto simp: greedy_def split: sum.splits)
  have "{start g} = set [start g]"
    by simp
  from greedy_loop_steps [OF r this] e
  show "\<exists>rest. path = start g # rest \<and> nearest_steps (adj g) [start g] (start g) rest"
    by simp
  from p e show "path_len (adj g) path = Inr l"
    by simp
next
  assume a: "complete (adj g) \<and> same_dims (adj g) \<and> start g \<in> set (nodes (adj g))"
  then have c: "complete (adj g)" and sd: "same_dims (adj g)" and st: "start g \<in> set (nodes (adj g))"
    by simp_all
  from greedy_complete [OF c sd st] obtain rest l where
    g: "greedy slot g = Inr (start g # rest, l)" and m: "mset rest = mset (others g)"
    and n: "nearest_steps (adj g) [start g] (start g) rest"
    by blast
  from others_perm [OF c st m] g n
  show "\<exists>rest l. greedy slot g = Inr (start g # rest, l) \<and>
         nearest_steps (adj g) [start g] (start g) rest \<and>
         distinct (start g # rest) \<and> set (start g # rest) = set (nodes (adj g))"
    by blast
qed

text \<open>
  C8. On a complete reduced graph that contains its start and whose coordinates have one
  dimension, both solvers return, and the length of the brute-force route is at most the
  length of the greedy route; the two lengths are equal when the greedy route is optimal
  (no ordering is shorter), in particular when both solvers return the same route.
\<close>

theorem brute_force_le_greedy:
  "complete (adj g) \<Longrightarrow> same_dims (adj g) \<Longrightarrow> start g \<in> set (nodes (adj g)) \<Longrightarrow>
   \<exists>bp bl gp gl. brute_force g = Inr (Some bp, Some bl) \<and> greedy slot g = Inr (gp, gl) \<and> bl \<le> gl \<and>
      ((\<forall>q. mset q = mset (others g) \<longrightarrow>
           (\<exists>l'. path_len (adj g) (start g # q) = Inr l' \<and> gl \<le> l')) \<longrightarrow> bl = gl) \<and>
      (gp = bp \<longrightarrow> bl = gl)"
proof -
  assume c: "complete (adj g)" and sd: "same_dims (adj g)" and st: "start g \<in> set (nodes (adj g))"
  from brute_force_spec [OF c st] obtain p bl where
    b: "brute_force g = Inr (Some (start g # p), Some bl)" and bm: "mset p = mset (others g)"
    and bp: "path_len (adj g) (start g # p) = Inr bl"
    and opt: "\<forall>q. mset q = mset (others g) \<longrightarrow>
              (\<exists>l'. path_len (adj g) (start g # q) = Inr l' \<and> bl \<le> l')"
    by blast
  from greedy_complete [OF c sd st] obtain rest gl where
    g: "greedy slot g = Inr (start g # rest, gl)" and gm: "mset rest = mset (others g)"
    and gp: "path_len (adj g) (start g # rest) = Inr gl"
    by blast
  from opt gm gp have le: "bl \<le> gl"
    by fastforce
  have eq1: "bl = gl" if "\<forall>q. mset q = mset (others g) \<longrightarrow>
           (\<exists>l'. path_len (adj g) (start g # q) = Inr l' \<and> gl \<le> l')"
  proof -
    from that bm bp have "gl \<le> bl" by fastforce
    with le show ?thesis by simp
  qed
  have eq2: "bl = gl" if "start g # rest = start g # p"
    using that bp gp by simp
  from b g le eq1 eq2 show ?thesis
    by blast
qed


lemma ex_detour_adj:
  "adj ex_detour =
     [(ex_S, [(ex_A, Some 6), (ex_B, Some 4)]), (ex_A, [(ex_S, Some 6), (ex_B, Some 2)]),
      (ex_B, [(ex_S, Some 4), (ex_A, Some 2)])]"
  by (simp add: ex_detour_def add_reduced_edge_def add_edge_def add_node_def nbrs_def)

lemma ex_detour_start: "start ex_detour = ex_S"
  by (simp add: ex_detour_def add_reduced_edge_def)

lemma ex_detour_nodes: "nodes (adj ex_detour) = [ex_S, ex_A, ex_B]"
  by (simp add: ex_detour_adj nodes_def)

lemma ex_detour_complete: "complete (adj ex_detour)"
  by (simp add: complete_def ex_detour_adj nodes_def) auto

lemma ex_detour_same_dims: "same_dims (adj ex_detour)"
  by (simp add: same_dims_def ex_detour_nodes ex_S_def ex_A_def ex_B_def ex_classroom_def)

lemma ex_detour_greedy: "greedy (\<lambda>cs n. 0) ex_detour = Inr ([ex_S, ex_A, ex_B], 8)"
proof -
  have "greedy_loop (\<lambda>cs n. 0) (adj ex_detour) [ex_S] {ex_S} ex_S = Inr [ex_S, ex_A, ex_B]"
    by (simp add: greedy_loop.simps [of _ _ _ _ ex_S] greedy_loop.simps [of _ _ _ _ ex_A]
      greedy_loop.simps [of _ _ _ _ ex_B] neighbors_def ex_detour_adj py_min_def ex_dists)
  moreover have "path_len (adj ex_detour) [ex_S, ex_A, ex_B] = Inr 8"
    by (simp add: ex_detour_adj edge_weight_def)
  ultimately show ?thesis
    by (simp add: greedy_def ex_detour_start)
qed

lemma ex_detour_brute: "brute_force ex_detour = Inr (Some [ex_S, ex_B, ex_A], Some 6)"
  by (simp add: brute_force_def permutations_def ex_detour_nodes ex_detour_start)
     (simp add: ex_detour_adj ex_detour_start edge_weight_def less_than_len_def upt_rec [of 0]
       upt_rec [of 1] numeral_2_eq_2)

text \<open>
  C1 as stated fails: on the complete graph \<open>ex_detour\<close> the greedy solver first appends A,
  whose reduced edge from S weighs 6, although B is unvisited and its reduced edge from S
  weighs 4; A is the nearer of the two in a straight line (2 against 4).
\<close>

theorem greedy_edge_weight_counterexample:
  "complete (adj ex_detour) \<and> same_dims (adj ex_detour) \<and>
   greedy (\<lambda>cs n. 0) ex_detour = Inr ([ex_S, ex_A, ex_B], 8) \<and>
   edge_weight (adj ex_detour) ex_S ex_A = Inr 6 \<and>
   edge_weight (adj ex_detour) ex_S ex_B = Inr 4 \<and>
   euclidean_dist_nodes ex_S ex_A = Inr 2 \<and>
   euclidean_dist_nodes ex_S ex_B = Inr 4"
  by (simp add: ex_detour_complete ex_detour_same_dims ex_detour_greedy ex_dists)
     (simp add: ex_detour_adj edge_weight_def)

theorem greedy_nearest_euclidean_witness:
  "greedy (\<lambda>cs n. 0) ex_detour = Inr ([ex_S, ex_A, ex_B], 8) \<and>
   complete (adj ex_detour) \<and> same_dims (adj ex_detour) \<and>
   start ex_detour \<in> set (nodes (adj ex_detour)) \<and>
   nearest_steps (adj ex_detour) [ex_S] ex_S [ex_A, ex_B] \<and>
   path_len (adj ex_detour) [ex_S, ex_A, ex_B] = Inr 8 \<and>
   (\<exists>rest l. greedy (\<lambda>cs n. 0) ex_detour = Inr (start ex_detour # rest, l) \<and>
      set (start ex_detour # rest) = set (nodes (adj ex_detour)))"
proof -
  have st: "start ex_detour \<in> set (nodes (adj ex_detour))"
    by (simp add: ex_detour_nodes ex_detour_start)
  note inst = greedy_nearest_euclidean [of "\<lambda>cs n. 0" ex_detour "[ex_S, ex_A, ex_B]" 8]
  from inst ex_detour_greedy have 1: "nearest_steps (adj ex_detour) [ex_S] ex_S [ex_A, ex_B]"
    and 2: "path_len (adj ex_detour) [ex_S, ex_A, ex_B] = Inr 8"
    by (simp_all add: ex_detour_start)
  from inst ex_detour_complete ex_detour_same_dims st
  have 3: "\<exists>rest l. greedy (\<lambda>cs n. 0) ex_detour = Inr (start ex_detour # rest, l) \<and>
      set (start ex_detour # rest) = set (nodes (adj ex_detour))"
    by blast
  from ex_detour_greedy ex_detour_complete ex_detour_same_dims st 1 2 3 show ?thesis
    by - (intro conjI, assumption+)
qed

theorem brute_force_le_greedy_witness:
  "complete (adj ex_detour) \<and> same_dims (adj ex_detour) \<and>
   start ex_detour \<in> set (nodes (adj ex_detour)) \<and>
   brute_force ex_detour = Inr (Some [ex_S, ex_B, ex_A], Some 6) \<and>
   greedy (\<lambda>cs n. 0) ex_detour = Inr ([ex_S, ex_A, ex_B], 8) \<and>
   (\<exists>bp bl gp gl. brute_force ex_detour = Inr (Some bp, Some bl) \<and>
      greedy (\<lambda>cs n. 0) ex_detour = Inr (gp, gl) \<and> bl \<le> gl)"
proof -
  have st: "start ex_detour \<in> set (nodes (adj ex_detour))"
    by (simp add: ex_detour_nodes ex_detour_start)
  from brute_force_le_greedy [OF ex_detour_complete ex_detour_same_dims st, of "\<lambda>cs n. 0"]
  have "\<exists>bp bl gp gl. brute_force ex_detour = Inr (Some bp, Some bl) \<and>
      greedy (\<lambda>cs n. 0) ex_detour = Inr (gp, gl) \<and> bl \<le> gl"
    by blast
  with ex_detour_complete ex_detour_same_dims st ex_detour_brute ex_detour_greedy show ?thesis
    by - (intro conjI, assumption+)
qed

section \<open>Connectivity repair\<close>










lemma map_of_add_node:
  "map_of (add_node a u) x = (if x = u \<and> map_of a u = None then Some [] else map_of a x)"
  by (auto simp: add_node_def map_add_def split: option.splits)

lemma edge_weight_add_edge:
  "edge_weight (add_edge a u v w) x y =
     (if (x = u \<and> y = v) \<or> (x = v \<and> y = u) then Inr w else edge_weight a x y)"
  by (auto simp: edge_weight_def add_edge_def Let_def update_conv' map_of_add_node nbrs_def
      split: option.splits)





lemma ex_rooms_neq [simp]:
  "ex_H1 \<noteq> ex_H2" "ex_H2 \<noteq> ex_H1" "ex_H1 \<noteq> ex_C1" "ex_C1 \<noteq> ex_H1" "ex_H2 \<noteq> ex_C1"
  "ex_C1 \<noteq> ex_H2" "ex_T \<noteq> ex_H1" "ex_H1 \<noteq> ex_T" "ex_T \<noteq> ex_H2" "ex_H2 \<noteq> ex_T"
  "ex_T \<noteq> ex_C1" "ex_C1 \<noteq> ex_T"
  by (simp_all add: ex_H1_def ex_H2_def ex_C1_def ex_T_def ex_hallway_def ex_classroom_def)











section \<open>Graph reduction\<close>

lemma add_reduced_edge_weight:
  "edge_weight (adj (add_reduced_edge r s t p w)) x y =
     (if (x = s \<and> y = t) \<or> (x = t \<and> y = s) then Inr w else edge_weight (adj r) x y)"
  by (simp add: add_reduced_edge_def edge_weight_add_edge)

lemma add_reduced_edge_dict:
  "map_of (edge_dict (add_reduced_edge r s t p w)) k =
     (if k = (t, s) then Some (rev p) else if k = (s, t) then Some p else map_of (edge_dict r) k)"
  by (simp add: add_reduced_edge_def update_conv')

lemma add_reduced_edge_start: "start (add_reduced_edge r s t p w) = start r"
  by (simp add: add_reduced_edge_def)

lemma add_reduced_edge_joins:
  assumes "joins p (u, v)"
  shows "joins (seg (edge_dict (add_reduced_edge r u v p w)) (u, v)) (u, v)"
    and "joins (seg (edge_dict (add_reduced_edge r u v p w)) (v, u)) (v, u)"
proof -
  from assms have p: "p \<noteq> []" "hd p = u" "last p = v"
    by (simp_all add: joins_def)
  then have r: "rev p \<noteq> []" "hd (rev p) = v" "last (rev p) = u"
    by (simp_all add: hd_rev last_rev)
  have 1: "seg (edge_dict (add_reduced_edge r u v p w)) (v, u) = rev p"
    by (simp add: seg_def add_reduced_edge_dict)
  have 2: "seg (edge_dict (add_reduced_edge r u v p w)) (u, v) = (if u = v then rev p else p)"
    by (simp add: seg_def add_reduced_edge_dict)
  show "joins (seg (edge_dict (add_reduced_edge r u v p w)) (v, u)) (v, u)"
    unfolding 1 using r by (simp add: joins_def)
  show "joins (seg (edge_dict (add_reduced_edge r u v p w)) (u, v)) (u, v)"
    unfolding 2 using p r by (simp add: joins_def)
qed

lemma reduce_loop_start: "reduce_loop astar g ps r0 = Inr r \<Longrightarrow> start r = start r0"
proof (induction ps arbitrary: r0)
  case Nil
  then show ?case by simp
next
  case (Cons e ps)
  obtain u v where e: "e = (u, v)" by (cases e)
  from Cons.prems obtain s t p w where
    "reduce_loop astar g ps (add_reduced_edge r0 s t p w) = Inr r"
    unfolding e by (auto split: option.splits sum.splits)
  from Cons.IH [OF this] show ?case
    by (simp add: add_reduced_edge_start)
qed

lemma reduce_loop_frame:
  "reduce_loop astar g ps r0 = Inr r \<Longrightarrow>
   list_all (\<lambda>e. \<not> same_edge (resolved (node_dict g) e) (Some x, Some y)) ps \<Longrightarrow>
   edge_weight (adj r) x y = edge_weight (adj r0) x y \<and>
   map_of (edge_dict r) (x, y) = map_of (edge_dict r0) (x, y)"
proof (induction ps arbitrary: r0)
  case Nil
  then show ?case by simp
next
  case (Cons e ps)
  obtain u v where e: "e = (u, v)" by (cases e)
  from Cons.prems(1) obtain s t p w where
    s: "map_of (node_dict g) u = Some s" and t: "map_of (node_dict g) v = Some t"
    and r: "reduce_loop astar g ps (add_reduced_edge r0 s t p w) = Inr r"
    unfolding e by (auto split: option.splits sum.splits)
  have rs: "resolved (node_dict g) (u, v) = (Some s, Some t)"
    by (simp add: resolved_def s t)
  from Cons.prems(2) have ne: "\<not> same_edge (Some s, Some t) (Some x, Some y)"
    and rest: "list_all (\<lambda>e. \<not> same_edge (resolved (node_dict g) e) (Some x, Some y)) ps"
    by (simp_all add: e rs)
  from ne have "\<not> ((x = s \<and> y = t) \<or> (x = t \<and> y = s))" "(x, y) \<noteq> (t, s)" "(x, y) \<noteq> (s, t)"
    by (auto simp: same_edge_def)
  then have "edge_weight (adj (add_reduced_edge r0 s t p w)) x y = edge_weight (adj r0) x y"
    "map_of (edge_dict (add_reduced_edge r0 s t p w)) (x, y) = map_of (edge_dict r0) (x, y)"
    by (simp_all only: add_reduced_edge_weight add_reduced_edge_dict if_False)
  with Cons.IH [OF r rest] show ?case
    by simp
qed

lemma same_edge_sym: "same_edge e f \<Longrightarrow> same_edge f e"
  by (cases e; cases f) (auto simp: same_edge_def)

lemma same_edge_swap: "same_edge (a, b) f \<longleftrightarrow> same_edge (b, a) f"
  by (cases f) (auto simp: same_edge_def)

lemma reduce_loop_edges:
  "reduce_loop astar g ps r0 = Inr r \<Longrightarrow>
   edges_distinct (map (resolved (node_dict g)) ps) \<Longrightarrow> (u, v) \<in> set ps \<Longrightarrow>
   \<exists>s t p w. map_of (node_dict g) u = Some s \<and> map_of (node_dict g) v = Some t \<and>
      astar g s t euclidean_dist_nodes = Inr p \<and> path_len (adj g) p = Inr w \<and>
      edge_weight (adj r) s t = Inr w \<and> edge_weight (adj r) t s = Inr w \<and>
      map_of (edge_dict r) (s, t) = Some p \<and> map_of (edge_dict r) (t, s) = Some (rev p)"
proof (induction ps arbitrary: r0)
  case Nil
  then show ?case by simp
next
  case (Cons e ps)
  obtain u0 v0 where e: "e = (u0, v0)" by (cases e)
  from Cons.prems(1) obtain s t p w where
    s: "map_of (node_dict g) u0 = Some s" and t: "map_of (node_dict g) v0 = Some t"
    and p: "astar g s t euclidean_dist_nodes = Inr p" and w: "path_len (adj g) p = Inr w"
    and r: "reduce_loop astar g ps (add_reduced_edge r0 s t p w) = Inr r"
    unfolding e by (auto split: option.splits sum.splits)
  have rs: "resolved (node_dict g) (u0, v0) = (Some s, Some t)"
    by (simp add: resolved_def s t)
  from Cons.prems(2) have st: "s \<noteq> t"
    and fresh: "list_all (\<lambda>f. \<not> same_edge (Some s, Some t) f) (map (resolved (node_dict g)) ps)"
    and dist: "edges_distinct (map (resolved (node_dict g)) ps)"
    by (simp_all add: e rs)
  show ?case
  proof (cases "(u, v) = (u0, v0)")
    case True
    let ?r1 = "add_reduced_edge r0 s t p w"
    have f1: "list_all (\<lambda>e. \<not> same_edge (resolved (node_dict g) e) (Some s, Some t)) ps"
      using fresh by (auto simp: list_all_iff dest: same_edge_sym)
    have f2: "list_all (\<lambda>e. \<not> same_edge (resolved (node_dict g) e) (Some t, Some s)) ps"
      using fresh by (auto simp: list_all_iff same_edge_swap [of "Some t" "Some s"] dest: same_edge_sym)
    from reduce_loop_frame [OF r f1] reduce_loop_frame [OF r f2] st
    have "edge_weight (adj r) s t = Inr w" "edge_weight (adj r) t s = Inr w"
      "map_of (edge_dict r) (s, t) = Some p" "map_of (edge_dict r) (t, s) = Some (rev p)"
      by (simp_all add: add_reduced_edge_weight add_reduced_edge_dict)
    with True s t p w show ?thesis
      by simp
  next
    case False
    with Cons.prems(3) have "(u, v) \<in> set ps"
      by (auto simp: e)
    from Cons.IH [OF r dist this] show ?thesis .
  qed
qed


lemma combinations2_map:
  "combinations2 (map f xs) = map (\<lambda>e. (f (fst e), f (snd e))) (combinations2 xs)"
  by (induction xs) (simp_all add: comp_def)

lemma combinations2_set: "(a, b) \<in> set (combinations2 xs) \<Longrightarrow> a \<in> set xs \<and> b \<in> set xs"
  by (induction xs) auto

lemma combinations2_nth:
  "i < j \<Longrightarrow> j < length xs \<Longrightarrow> (xs ! i, xs ! j) \<in> set (combinations2 xs)"
proof (induction xs arbitrary: i j)
  case Nil
  then show ?case by simp
next
  case (Cons x xs)
  show ?case
  proof (cases i)
    case 0
    with Cons.prems obtain j' where "j = Suc j'" "j' < length xs"
      by (cases j) auto
    with 0 show ?thesis by simp
  next
    case (Suc i')
    with Cons.prems obtain j' where "j = Suc j'" "i' < j'" "j' < length xs"
      by (cases j) auto
    with Suc Cons.IH [of i' j'] show ?thesis by simp
  qed
qed

lemma edges_distinct_append:
  "edges_distinct (as @ bs) \<longleftrightarrow>
     edges_distinct as \<and> edges_distinct bs \<and> (\<forall>a \<in> set as. \<forall>b \<in> set bs. \<not> same_edge a b)"
  by (induction as) (auto simp: list_all_iff)

lemma edges_distinct_pairs:
  "x \<notin> set xs \<Longrightarrow> distinct xs \<Longrightarrow> edges_distinct (map (Pair x) xs)"
  by (induction xs) (auto simp: list_all_iff same_edge_def)

lemma combinations2_distinct: "distinct xs \<Longrightarrow> edges_distinct (combinations2 xs)"
proof (induction xs)
  case Nil
  show ?case by simp
next
  case (Cons x xs)
  have "\<not> same_edge (x, a) (c, d)" if "a \<in> set xs" "(c, d) \<in> set (combinations2 xs)" for a c d
  proof -
    from that(2) have "c \<in> set xs" "d \<in> set xs"
      using combinations2_set by fastforce+
    with Cons.prems show ?thesis
      by (auto simp: same_edge_def)
  qed
  then have "\<forall>a \<in> set (map (Pair x) xs). \<forall>b \<in> set (combinations2 xs). \<not> same_edge a b"
    by auto
  with Cons show ?case
    by (simp add: edges_distinct_append edges_distinct_pairs)
qed

lemma reduce_loop_total:
  "list_all (pair_ok astar g) ps \<Longrightarrow> \<exists>r. reduce_loop astar g ps r0 = Inr r"
proof (induction ps arbitrary: r0)
  case Nil
  show ?case by simp
next
  case (Cons e ps)
  obtain u v where e: "e = (u, v)" by (cases e)
  from Cons.prems obtain s t p w where
    "map_of (node_dict g) u = Some s" "map_of (node_dict g) v = Some t"
    "astar g s t euclidean_dist_nodes = Inr p" "path_len (adj g) p = Inr w"
    by (auto simp: e pair_ok_def shortest_def)
  moreover from Cons.prems have "list_all (pair_ok astar g) ps"
    by simp
  from Cons.IH [OF this] obtain r where
    "reduce_loop astar g ps (add_reduced_edge r0 s t p w) = Inr r"
    by blast
  ultimately show ?case
    by (simp add: e)
qed

lemma reduce_graph_spec:
  assumes ok: "list_all (pair_ok astar g) (combinations2 ns)"
    and st: "map_of (node_dict g) st = Some s0"
    and dist: "distinct (map (map_of (node_dict g)) ns)"
  shows "\<exists>r. reduce_graph astar g ns st = Inr r \<and> start r = s0 \<and>
     (\<forall>i j. i < j \<and> j < length ns \<longrightarrow>
        (\<exists>s t p w. map_of (node_dict g) (ns ! i) = Some s \<and> map_of (node_dict g) (ns ! j) = Some t \<and>
           astar g s t euclidean_dist_nodes = Inr p \<and> shortest (adj g) s t p \<and>
           path_len (adj g) p = Inr w \<and>
           edge_weight (adj r) s t = Inr w \<and> edge_weight (adj r) t s = Inr w \<and>
           map_of (edge_dict r) (s, t) = Some p \<and> map_of (edge_dict r) (t, s) = Some (rev p)))"
proof -
  let ?r0 = "\<lparr>adj = [], start = s0, edge_dict = []\<rparr>"
  let ?ps = "combinations2 ns"
  from reduce_loop_total [OF ok] obtain r where loop: "reduce_loop astar g ?ps ?r0 = Inr r"
    by blast
  have red: "reduce_graph astar g ns st = Inr r"
    using st loop by (simp add: reduce_graph_def)
  have start: "start r = s0"
    using reduce_loop_start [OF loop] by simp
  have "map (resolved (node_dict g)) ?ps = combinations2 (map (map_of (node_dict g)) ns)"
    by (simp add: combinations2_map resolved_def [abs_def])
  then have ed: "edges_distinct (map (resolved (node_dict g)) ?ps)"
    using combinations2_distinct [OF dist] by simp
  have "\<exists>s t p w. map_of (node_dict g) (ns ! i) = Some s \<and> map_of (node_dict g) (ns ! j) = Some t \<and>
           astar g s t euclidean_dist_nodes = Inr p \<and> shortest (adj g) s t p \<and>
           path_len (adj g) p = Inr w \<and>
           edge_weight (adj r) s t = Inr w \<and> edge_weight (adj r) t s = Inr w \<and>
           map_of (edge_dict r) (s, t) = Some p \<and> map_of (edge_dict r) (t, s) = Some (rev p)"
    if ij: "i < j \<and> j < length ns" for i j
  proof -
    from ij have mem: "(ns ! i, ns ! j) \<in> set ?ps"
      by (simp add: combinations2_nth)
    from reduce_loop_edges [OF loop ed mem] obtain s t p w where
      f: "map_of (node_dict g) (ns ! i) = Some s" "map_of (node_dict g) (ns ! j) = Some t"
      "astar g s t euclidean_dist_nodes = Inr p" "path_len (adj g) p = Inr w"
      "edge_weight (adj r) s t = Inr w" "edge_weight (adj r) t s = Inr w"
      "map_of (edge_dict r) (s, t) = Some p" "map_of (edge_dict r) (t, s) = Some (rev p)"
      by blast
    from ok mem have "pair_ok astar g (ns ! i, ns ! j)"
      by (simp add: list_all_iff)
    with f(1,2,3) have "shortest (adj g) s t p"
      by (auto simp: pair_ok_def)
    with f show ?thesis
      by blast
  qed
  with red start show ?thesis
    by blast
qed


text \<open>
  C2, amended. The pairs that \<open>_reduce_graph\<close> searches are those of the list \<open>nodes\<close>; the
  start takes part only when its name is in the list. When the names of the list stand for
  different nodes of the base graph, the start is a name of the graph, and the search
  returns a shortest path for every pair of the list, the reduction returns a reduced graph
  with that start in which, for any two positions \<open>i < j\<close> of the list, the edge between the
  two nodes exists in both directions with the length of the returned path as weight, which
  is the shortest-path length, and \<open>edge_dict\<close> holds the path for the one direction and
  the reversed path for the other.
\<close>

theorem reduce_graph_edges:
  assumes "list_all (pair_ok astar g) (combinations2 ns)"
    and "map_of (node_dict g) st = Some s0"
    and "distinct (map (map_of (node_dict g)) ns)"
  shows "\<exists>r. reduce_graph astar g ns st = Inr r \<and> start r = s0 \<and>
     (\<forall>i j. i < j \<and> j < length ns \<longrightarrow>
        (\<exists>s t p w. map_of (node_dict g) (ns ! i) = Some s \<and> map_of (node_dict g) (ns ! j) = Some t \<and>
           astar g s t euclidean_dist_nodes = Inr p \<and> shortest (adj g) s t p \<and>
           path_len (adj g) p = Inr w \<and>
           edge_weight (adj r) s t = Inr w \<and> edge_weight (adj r) t s = Inr w \<and>
           map_of (edge_dict r) (s, t) = Some p \<and> map_of (edge_dict r) (t, s) = Some (rev p)))"
  using assms by (rule reduce_graph_spec)

lemma path_len_lower_bound:
  "\<forall>x y w. edge_weight a x y = Inr w \<longrightarrow> \<bar>f x - f y\<bar> \<le> w \<Longrightarrow>
   path_len a q = Inr l \<Longrightarrow> q \<noteq> [] \<Longrightarrow> \<bar>f (hd q) - f (last q)\<bar> \<le> l"
proof (induction a q arbitrary: l rule: path_len.induct)
  case (1 a u v rest)
  from "1.prems"(2) obtain w s where w: "edge_weight a u v = Inr w"
    and s: "path_len a (v # rest) = Inr s" and l: "l = w + s"
    by (auto split: sum.splits)
  from "1.IH" [OF w "1.prems"(1) s] have "\<bar>f v - f (last (v # rest))\<bar> \<le> s"
    by simp
  moreover from "1.prems"(1) w have "\<bar>f u - f v\<bar> \<le> w"
    by blast
  ultimately show ?case
    using l by simp
qed simp_all

lemma ex_base_edge:
  "edge_weight (adj ex_base) x y = Inr w \<Longrightarrow> \<bar>coord x ! 0 - coord y ! 0\<bar> \<le> w"
  by (auto simp: ex_base_adj edge_weight_def ex_S_def ex_J_def ex_A_def ex_K_def ex_B_def
      ex_hallway_def ex_classroom_def split: if_splits)

lemma ex_base_shortest:
  assumes "path_len (adj ex_base) p = Inr w" and "p \<noteq> []"
    and "\<bar>coord (hd p) ! 0 - coord (last p) ! 0\<bar> = w"
  shows "shortest (adj ex_base) (hd p) (last p) p"
  unfolding shortest_def
proof (intro conjI exI [of _ w] allI impI)
  fix q l
  assume q: "q \<noteq> [] \<and> hd q = hd p \<and> last q = last p \<and> path_len (adj ex_base) q = Inr l"
  then have "\<bar>coord (hd q) ! 0 - coord (last q) ! 0\<bar> \<le> l"
    using path_len_lower_bound [of "adj ex_base" "\<lambda>n. coord n ! 0" q l] ex_base_edge by blast
  with q assms(3) show "w \<le> l"
    by simp
qed (use assms in simp_all)

lemma ex_pairs_ok: "list_all (pair_ok ex_search ex_base) (combinations2 [''S'', ''A'', ''B''])"
proof -
  have 1: "shortest (adj ex_base) ex_S ex_A [ex_S, ex_J, ex_A]"
    using ex_base_shortest [OF ex_path_lens(1)]
    by (simp add: ex_S_def ex_A_def ex_classroom_def)
  have 2: "shortest (adj ex_base) ex_S ex_B [ex_S, ex_J, ex_A, ex_K, ex_B]"
    using ex_base_shortest [OF ex_path_lens(2)]
    by (simp add: ex_S_def ex_B_def ex_classroom_def)
  have 3: "shortest (adj ex_base) ex_A ex_B [ex_A, ex_K, ex_B]"
    using ex_base_shortest [OF ex_path_lens(3)]
    by (simp add: ex_A_def ex_B_def ex_classroom_def)
  from 1 2 3 show ?thesis
    by (simp add: pair_ok_def ex_node_dict ex_search_def)
qed

theorem reduce_graph_edges_witness:
  "list_all (pair_ok ex_search ex_base) (combinations2 [''S'', ''A'', ''B'']) \<and>
   map_of (node_dict ex_base) ''S'' = Some ex_S \<and>
   distinct (map (map_of (node_dict ex_base)) [''S'', ''A'', ''B'']) \<and>
   reduce_graph ex_search ex_base [''S'', ''A'', ''B''] ''S'' = Inr ex_reduced3 \<and>
   (\<exists>s t p w. map_of (node_dict ex_base) ''S'' = Some s \<and> map_of (node_dict ex_base) ''B'' = Some t \<and>
      ex_search ex_base s t euclidean_dist_nodes = Inr p \<and> shortest (adj ex_base) s t p \<and>
      path_len (adj ex_base) p = Inr w \<and>
      edge_weight (adj ex_reduced3) s t = Inr w \<and> edge_weight (adj ex_reduced3) t s = Inr w \<and>
      map_of (edge_dict ex_reduced3) (s, t) = Some p \<and>
      map_of (edge_dict ex_reduced3) (t, s) = Some (rev p)) \<and>
   edge_weight (adj ex_reduced3) ex_S ex_B = Inr 4"
proof -
  have st: "map_of (node_dict ex_base) ''S'' = Some ex_S"
    by (simp add: ex_node_dict)
  have d: "distinct (map (map_of (node_dict ex_base)) [''S'', ''A'', ''B''])"
    by (simp add: ex_node_dict)
  from reduce_graph_edges [OF ex_pairs_ok st d] ex_reduce
  have "\<forall>i j. i < j \<and> j < length [''S'', ''A'', ''B''] \<longrightarrow>
        (\<exists>s t p w. map_of (node_dict ex_base) ([''S'', ''A'', ''B''] ! i) = Some s \<and>
           map_of (node_dict ex_base) ([''S'', ''A'', ''B''] ! j) = Some t \<and>
           ex_search ex_base s t euclidean_dist_nodes = Inr p \<and> shortest (adj ex_base) s t p \<and>
           path_len (adj ex_base) p = Inr w \<and>
           edge_weight (adj ex_reduced3) s t = Inr w \<and> edge_weight (adj ex_reduced3) t s = Inr w \<and>
           map_of (edge_dict ex_reduced3) (s, t) = Some p \<and>
           map_of (edge_dict ex_reduced3) (t, s) = Some (rev p))"
    by auto
  from this [rule_format, of 0 2]
  have e: "\<exists>s t p w. map_of (node_dict ex_base) ''S'' = Some s \<and> map_of (node_dict ex_base) ''B'' = Some t \<and>
      ex_search ex_base s t euclidean_dist_nodes = Inr p \<and> shortest (adj ex_base) s t p \<and>
      path_len (adj ex_base) p = Inr w \<and>
      edge_weight (adj ex_reduced3) s t = Inr w \<and> edge_weight (adj ex_reduced3) t s = Inr w \<and>
      map_of (edge_dict ex_reduced3) (s, t) = Some p \<and>
      map_of (edge_dict ex_reduced3) (t, s) = Some (rev p)"
    by simp
  have w: "edge_weight (adj ex_reduced3) ex_S ex_B = Inr 4"
    by (simp add: ex_reduced3_def edge_weight_def)
  from ex_pairs_ok st d ex_reduce e w show ?thesis
    by - (intro conjI, assumption+)
qed

text \<open>
  C2 as stated fails: with start \<open>S\<close> and \<open>nodes = [A, B]\<close> the reduced graph has the single
  edge A--B. The pair of the start and \<open>A\<close> is never searched, although the base graph has
  a shortest path between them, and the reduced graph has neither an edge nor a stored path
  for it.
\<close>

theorem reduce_graph_start_counterexample:
  "map_of (node_dict ex_base) ''S'' = Some ex_S \<and>
   ex_search ex_base ex_S ex_A euclidean_dist_nodes = Inr [ex_S, ex_J, ex_A] \<and>
   reduce_graph ex_search ex_base [''A'', ''B''] ''S'' =
     Inr \<lparr>adj = [(ex_A, [(ex_B, Some 2)]), (ex_B, [(ex_A, Some 2)])], start = ex_S,
          edge_dict = [((ex_A, ex_B), [ex_A, ex_K, ex_B]), ((ex_B, ex_A), [ex_B, ex_K, ex_A])]\<rparr> \<and>
   edge_weight [(ex_A, [(ex_B, Some 2)]), (ex_B, [(ex_A, Some 2)])] ex_S ex_A = Inl KeyError \<and>
   map_of [((ex_A, ex_B), [ex_A, ex_K, ex_B]), ((ex_B, ex_A), [ex_B, ex_K, ex_A])] (ex_S, ex_A) = None"
  by (simp add: reduce_graph_def ex_search_def ex_path_lens add_reduced_edge_def add_edge_def
      add_node_def nbrs_def ex_node_dict edge_weight_def del: path_len.simps)

end
